theory Spec2Isabelle
  imports Complex_Main "HOL-Library.Multiset"
begin

section \<open>Errors and results\<close>

text \<open>
  The exceptions that the modelled parts of \<^verbatim>\<open>train.py\<close> can raise.  A computation
  that may raise returns \<open>error + 'a\<close>, with \<open>Inl\<close> carrying the exception.
\<close>

datatype error =
    InvalidArgumentError
  | OutOfRangeError
  | IOError
  | JSONDecodeError
  | AttributeError
  | NameError
  | ZeroDivisionError
  | ValueError
  | TypeError

section \<open>Tensor primitives used by the sampler\<close>

text \<open>
  \<^verbatim>\<open>tf.boolean_mask(tensor, mask)\<close> on rank-1 tensors keeps the entries whose mask bit
  is set; for shapes that do not agree it raises \<^verbatim>\<open>ValueError\<close> while the graph is built.
\<close>

definition boolean_mask :: "'a list \<Rightarrow> bool list \<Rightarrow> error + 'a list" where
  "boolean_mask tensor msk =
     (if length tensor \<noteq> length msk then Inl ValueError
      else Inr (map fst (filter snd (zip tensor msk))))"

text \<open>
  \<^verbatim>\<open>tf.gather(params, indices)\<close>: an index outside \<open>[0, len(params))\<close> is an error.
\<close>

definition gather :: "'a list \<Rightarrow> nat list \<Rightarrow> error + 'a list" where
  "gather params indices =
     (if list_all (\<lambda>i. i < length params) indices then Inr (map ((!) params) indices)
      else Inl InvalidArgumentError)"

text \<open>
  \<^verbatim>\<open>tf.random.shuffle\<close> returns a uniformly random permutation of its argument.  The
  random source is made explicit as a list of draws \<open>rs\<close>: the next output element is the
  one at position \<open>r mod n\<close> of the \<open>n\<close> elements still left (an exhausted source
  draws \<open>0\<close>).  Every result is a permutation of the input (\<open>mset_shuffle\<close>) and every
  permutation is the result for some draws (\<open>shuffle_reaches\<close>).
\<close>

function shuffle :: "nat list \<Rightarrow> 'a list \<Rightarrow> 'a list" where
  "shuffle rs [] = []"
| "shuffle rs (x # xs) =
     (let ys = x # xs;
          i = (case rs of [] \<Rightarrow> 0 | r # _ \<Rightarrow> r) mod length ys
      in ys ! i # shuffle (tl rs) (take i ys @ drop (Suc i) ys))"
  by pat_completeness auto
termination
  by (relation "measure (\<lambda>(rs, xs). length xs)") (auto simp: Let_def)

section \<open>The K-selector \<^verbatim>\<open>sample_k_fids_for_pid\<close>\<close>

text \<open>
  Line 165 takes the ceiling of a \<^verbatim>\<open>float32\<close> quotient.  A \<^verbatim>\<open>float32\<close> has a significand of
  24 bits and arithmetic rounds to the nearest value, ties to the even significand.
  \<open>bit_length n\<close> is the number of binary digits of \<open>n\<close>.
\<close>

function bit_length :: "nat \<Rightarrow> nat" where
  "bit_length n = (if n = 0 then 0 else Suc (bit_length (n div 2)))"
  by pat_completeness auto
termination
  by (relation "measure (\<lambda>n. n)") auto

text \<open>The integer nearest to \<open>a / b\<close>, ties to the even one.\<close>

definition round_half_even_div :: "nat \<Rightarrow> nat \<Rightarrow> nat" where
  "round_half_even_div a b =
     (let q = a div b; r = a mod b
      in if 2 * r < b then q else if b < 2 * r then q + 1 else if even q then q else q + 1)"

text \<open>
  The \<^verbatim>\<open>float32\<close> value of an integer (the conversion of \<^verbatim>\<open>batch_k\<close> and
  \<^verbatim>\<open>tf.cast(count, tf.float32)\<close>): an integer of more than 24 bits is rounded to a
  multiple of \<open>2 ^ (bit_length n - 24)\<close>.  The value is again an integer.  The model
  is that of the \<^verbatim>\<open>int32\<close> range, where \<^verbatim>\<open>count\<close> lives: exponent overflow (from
  \<open>2^128\<close> on) and the double rounding of a Python \<^verbatim>\<open>int\<close> beyond \<open>2^53\<close> are left out.
\<close>

definition f32_of_nat :: "nat \<Rightarrow> nat" where
  "f32_of_nat n = (let sh = bit_length n - 24 in round_half_even_div n (2 ^ sh) * 2 ^ sh)"

text \<open>
  The ceiling of the \<^verbatim>\<open>float32\<close> quotient \<open>a / b\<close> of two integer-valued floats with
  \<open>b < a\<close>.  The quotient lies in \<open>[2^e, 2^(e+1))\<close> for \<open>e = bit_length (a div b) - 1\<close>
  and is rounded to a multiple of \<open>2^(e-23)\<close>: for \<open>e \<ge> 23\<close> that is an integer already,
  for \<open>e < 23\<close> it is \<open>n / 2^(23-e)\<close> with \<open>n\<close> the integer nearest to \<open>a * 2^(23-e) / b\<close>.
\<close>

definition f32_ceil_quotient_above_one :: "nat \<Rightarrow> nat \<Rightarrow> nat" where
  "f32_ceil_quotient_above_one a b =
     (let e = bit_length (a div b) - 1
      in if 23 \<le> e then round_half_even_div a (b * 2 ^ (e - 23)) * 2 ^ (e - 23)
         else (round_half_even_div (a * 2 ^ (23 - e)) b + 2 ^ (23 - e) - 1) div 2 ^ (23 - e))"

text \<open>
  \<^verbatim>\<open>tf.math.ceil(a / b)\<close> in \<^verbatim>\<open>float32\<close>.  For \<open>0 < a \<le> b\<close> the quotient lies in
  \<open>(0, 1]\<close>, hence so does its \<^verbatim>\<open>float32\<close> value (\<open>1\<close> is a float and rounding keeps
  the order), and the ceiling is \<open>1\<close>.
\<close>

definition f32_ceil_quotient :: "nat \<Rightarrow> nat \<Rightarrow> nat" where
  "f32_ceil_quotient a b =
     (if a = 0 then 0 else if a \<le> b then 1 else f32_ceil_quotient_above_one a b)"

text \<open>
  \<^verbatim>\<open>padded_count = cast(ceil(batch_k / cast(count, float32)), int32) * count\<close>.
  The source's \<^verbatim>\<open>count\<close> is written \<open>cnt\<close>.  For \<open>cnt = 0\<close> the product with \<open>cnt\<close> is
  \<open>0\<close> whatever the quotient.  The \<^verbatim>\<open>int32\<close> cast and product are taken exactly; they
  cannot overflow for \<open>batch_k\<close> and \<open>cnt\<close> below \<open>2^30\<close>.  Below \<open>2^24\<close> the value is
  \<open>ceil(batch_k / cnt) * cnt\<close> (\<open>padded_count_exact\<close>).
\<close>

definition padded_count :: "nat \<Rightarrow> nat \<Rightarrow> nat" where
  "padded_count batch_k cnt = f32_ceil_quotient (f32_of_nat batch_k) (f32_of_nat cnt) * cnt"

text \<open>\<^verbatim>\<open>full_range = tf.math.mod(tf.range(padded_count), count)\<close>\<close>

definition full_range :: "nat \<Rightarrow> nat \<Rightarrow> nat list" where
  "full_range batch_k cnt = map (\<lambda>i. i mod cnt) [0..<padded_count batch_k cnt]"

text \<open>\<^verbatim>\<open>shuffled[:batch_k]\<close> with \<^verbatim>\<open>shuffled = tf.random.shuffle(full_range)\<close>\<close>

definition selected_indices :: "nat list \<Rightarrow> nat \<Rightarrow> nat \<Rightarrow> nat list" where
  "selected_indices rs batch_k cnt = take batch_k (shuffle rs (full_range batch_k cnt))"

definition sample_k_fids_for_pid ::
  "nat list \<Rightarrow> 'p \<Rightarrow> 'f list \<Rightarrow> 'p list \<Rightarrow> nat \<Rightarrow> error + ('f list \<times> 'p list)" where
  "sample_k_fids_for_pid rs pid all_fids all_pids batch_k =
     (case boolean_mask all_fids (map (\<lambda>q. q = pid) all_pids) of
        Inl e \<Rightarrow> Inl e
      | Inr possible_fids \<Rightarrow>
          (let cnt = length possible_fids in
           case gather possible_fids (selected_indices rs batch_k cnt) of
             Inl e \<Rightarrow> Inl e
           | Inr selected_fids \<Rightarrow> Inr (selected_fids, replicate batch_k pid)))"

section \<open>The PK-batch pipeline of \<^verbatim>\<open>main\<close>\<close>

text \<open>\<^verbatim>\<open>np.unique\<close>: the distinct values, sorted.\<close>

definition np_unique :: "'p::linorder list \<Rightarrow> 'p list" where
  "np_unique pids = sort (remdups pids)"

text \<open>
  Mapping a function that may raise over the elements of a dataset: the first exception
  ends the iteration.
\<close>

fun map_result :: "('a \<Rightarrow> error + 'b) \<Rightarrow> 'a list \<Rightarrow> error + 'b list" where
  "map_result f [] = Inr []"
| "map_result f (x # xs) =
     (case f x of
        Inl e \<Rightarrow> Inl e
      | Inr y \<Rightarrow> (case map_result f xs of Inl e \<Rightarrow> Inl e | Inr ys \<Rightarrow> Inr (y # ys)))"

text \<open>
  \<^verbatim>\<open>Dataset.unbatch()\<close> on elements that are pairs of tensors splits each element
  along the first axis; the two components need the same leading dimension.
\<close>

definition unbatch_element :: "'f list \<times> 'p list \<Rightarrow> error + ('f \<times> 'p) list" where
  "unbatch_element fp =
     (if length (fst fp) \<noteq> length (snd fp) then Inl InvalidArgumentError
      else Inr (zip (fst fp) (snd fp)))"

definition unbatch :: "('f list \<times> 'p list) list \<Rightarrow> error + ('f \<times> 'p) list" where
  "unbatch ds =
     (case map_result unbatch_element ds of Inl e \<Rightarrow> Inl e | Inr xss \<Rightarrow> Inr (concat xss))"

text \<open>
  \<^verbatim>\<open>Dataset.batch(batch_size)\<close> with the default \<^verbatim>\<open>drop_remainder=False\<close>: consecutive
  groups of \<open>batch_size\<close> elements, a shorter last group being kept.
\<close>

function batch :: "nat \<Rightarrow> 'a list \<Rightarrow> 'a list list" where
  "batch n xs = (if n = 0 \<or> xs = [] then [] else take n xs # batch n (drop n xs))"
  by pat_completeness auto
termination
  by (relation "measure (\<lambda>(n, xs). length xs)") auto

text \<open>
  Lines 243 to 287 of \<^verbatim>\<open>main\<close>: \<^verbatim>\<open>max(map(len, fids))\<close> raises \<^verbatim>\<open>ValueError\<close> on an
  empty dataset; then the unique identities are shuffled and truncated to
  a multiple of \<open>batch_p\<close>, repeated forever with a fresh shuffle per epoch, each identity
  is mapped to \<open>batch_k\<close> of its file ids, the result is unbatched and regrouped in
  batches of \<open>batch_p * batch_k\<close>.

  The stream is infinite; \<open>train_batches\<close> gives what its first \<open>epochs\<close> epochs yield.
  \<open>epoch_rs e\<close> are the draws of the shuffle of epoch \<open>e\<close>, \<open>sample_rs i\<close> those of the
  K-selector for the \<open>i\<close>-th identity of the stream.  The maps between
  \<^verbatim>\<open>unbatch\<close> and \<^verbatim>\<open>batch\<close> (image loading and augmentation) work element by element
  and hand file id and identity through, so an element stays a pair of the two here.
  \<^verbatim>\<open>len(unique_pids) // batch_p\<close> raises for \<open>batch_p = 0\<close>, and \<^verbatim>\<open>batch\<close> rejects a
  batch size of \<open>0\<close>.
\<close>

definition train_batches ::
  "(nat \<Rightarrow> nat list) \<Rightarrow> (nat \<Rightarrow> nat list) \<Rightarrow> nat \<Rightarrow> 'f list \<Rightarrow> 'p::linorder list \<Rightarrow> nat \<Rightarrow> nat
     \<Rightarrow> error + ('f \<times> 'p) list list" where
  "train_batches epoch_rs sample_rs epochs fids pids batch_p batch_k =
     (if fids = [] then Inl ValueError
      else if batch_p = 0 then Inl ZeroDivisionError
      else
        let unique_pids = np_unique pids;
            dataset = concat (map (\<lambda>e. take (length unique_pids div batch_p * batch_p)
                                            (shuffle (epoch_rs e) unique_pids)) [0..<epochs])
        in case map_result (\<lambda>(i, pid). sample_k_fids_for_pid (sample_rs i) pid fids pids batch_k)
                  (enumerate 0 dataset) of
             Inl e \<Rightarrow> Inl e
           | Inr sampled \<Rightarrow>
               (case unbatch sampled of
                  Inl e \<Rightarrow> Inl e
                | Inr flat \<Rightarrow>
                    if batch_p * batch_k = 0 then Inl InvalidArgumentError
                    else Inr (batch (batch_p * batch_k) flat)))"

section \<open>Arguments and the experiment directory\<close>

text \<open>
  The values an argument can hold after \<^verbatim>\<open>argparse\<close> or \<^verbatim>\<open>json.load\<close>.  A float is
  represented by the rational it denotes (no NaN, no infinity).
\<close>

datatype py_value = PyNone | PyBool bool | PyInt int | PyFloat rat | PyStr string

fun py_number :: "py_value \<Rightarrow> rat option" where
  "py_number (PyBool b) = Some (if b then 1 else 0)"
| "py_number (PyInt i) = Some (of_int i)"
| "py_number (PyFloat r) = Some r"
| "py_number PyNone = None"
| "py_number (PyStr s) = None"

text \<open>Python's \<^verbatim>\<open>==\<close>: numbers (booleans included) compare by value across types.\<close>

definition py_eq :: "py_value \<Rightarrow> py_value \<Rightarrow> bool" where
  "py_eq a b =
     (case (py_number a, py_number b) of
        (Some x, Some y) \<Rightarrow> x = y
      | (None, None) \<Rightarrow> a = b
      | _ \<Rightarrow> False)"

text \<open>Python's truth value, as tested by \<^verbatim>\<open>if args.resume\<close> and \<^verbatim>\<open>not args.train_set\<close>.\<close>

fun py_truthy :: "py_value \<Rightarrow> bool" where
  "py_truthy PyNone = False"
| "py_truthy (PyBool b) = b"
| "py_truthy (PyInt i) = (i \<noteq> 0)"
| "py_truthy (PyFloat r) = (r \<noteq> 0)"
| "py_truthy (PyStr s) = (s \<noteq> [])"

text \<open>
  \<^verbatim>\<open>args.__dict__\<close>: the arguments in insertion order.  A \<^verbatim>\<open>dict\<close> has no key twice,
  which the theorems assume as \<open>distinct (map fst args)\<close> where it matters.
\<close>

type_synonym args = "(string \<times> py_value) list"

text \<open>What the program prints or logs.\<close>

datatype message =
    LoadingArgs
  | WarnLoadedValue string py_value py_value
  | WarnNewArgument string py_value
  | DirNotEmpty
  | LogParameters args
  | PrintHelp
  | ErrorNoTrainSet
  | ErrorNoImageRoot
  | LogStart int
  | LogIter int
  | LogInterrupted

text \<open>
  The experiment root: \<open>None\<close> when the path does not exist, else its entries by name.
  A file holding a JSON object is represented by the object, so the layout chosen by
  \<^verbatim>\<open>json.dump\<close> (\<^verbatim>\<open>indent\<close>, \<^verbatim>\<open>sort_keys\<close>) is not part of the model.
  \<open>JsonOther\<close> is a file holding JSON that is not an object (a list, a string, a
  number, \<^verbatim>\<open>true\<close>, \<^verbatim>\<open>false\<close> or \<^verbatim>\<open>null\<close>), \<open>OtherFile\<close> a file holding no JSON.
\<close>

datatype node = JsonObject args | JsonOther | OtherFile | Directory

record world =
  root :: "(string \<rightharpoonup> node) option"
  out :: "message list"

text \<open>How a part of \<^verbatim>\<open>main\<close> ends: it goes on, exits with a status, or raises.\<close>

datatype 'a outcome = Continue 'a | Exit nat | Raise error

section \<open>The start of \<^verbatim>\<open>main\<close>: lines 176 to 239\<close>

text \<open>
  Lines 194 to 204: the loop over \<^verbatim>\<open>args.__dict__.items()\<close>.  It returns the updated
  arguments and the warnings, in the order printed.
\<close>

fun merge_resumed :: "(string \<rightharpoonup> py_value) \<Rightarrow> args \<Rightarrow> args \<times> message list" where
  "merge_resumed args_resumed [] = ([], [])"
| "merge_resumed args_resumed ((key, val) # items) =
     (let (args', msgs) = merge_resumed args_resumed items in
      case args_resumed key of
        Some resumed_value \<Rightarrow>
          if \<not> py_eq resumed_value val
          then ((key, resumed_value) # args', WarnLoadedValue key resumed_value val # msgs)
          else ((key, val) # args', msgs)
      | None \<Rightarrow> ((key, val) # args', WarnNewArgument key val # msgs))"

text \<open>
  Lines 183 to 204, the branch taken with \<^verbatim>\<open>--resume\<close>.  \<^verbatim>\<open>os.path.isfile\<close> is false
  for a missing path and for a directory; \<^verbatim>\<open>json.load\<close> raises on a file that holds
  no JSON, and the assignment \<^verbatim>\<open>args_resumed['resume'] = True\<close> of line 189 raises
  \<^verbatim>\<open>TypeError\<close> on a loaded value that is not a \<^verbatim>\<open>dict\<close>.
\<close>

definition load_args :: "args \<Rightarrow> world \<Rightarrow> args outcome \<times> world" where
  "load_args args w =
     (case root w of
        None \<Rightarrow> (Raise IOError, w)
      | Some d \<Rightarrow>
          (case d ''args.json'' of
             Some (JsonObject loaded) \<Rightarrow>
               (let args_resumed = (map_of loaded)(''resume'' \<mapsto> PyBool True);
                    (args', msgs) = merge_resumed args_resumed args
                in (Continue args', w\<lparr>out := out w @ LoadingArgs # msgs\<rparr>))
           | Some JsonOther \<Rightarrow> (Raise TypeError, w\<lparr>out := out w @ [LoadingArgs]\<rparr>)
           | Some OtherFile \<Rightarrow> (Raise JSONDecodeError, w\<lparr>out := out w @ [LoadingArgs]\<rparr>)
           | Some Directory \<Rightarrow> (Raise IOError, w)
           | None \<Rightarrow> (Raise IOError, w)))"

text \<open>
  Lines 207 to 220, the branch taken without \<^verbatim>\<open>--resume\<close>: bail out on a directory
  that has entries, create a missing one, then write \<^verbatim>\<open>args.json\<close>.
\<close>

definition store_args :: "args \<Rightarrow> world \<Rightarrow> args outcome \<times> world" where
  "store_args args w =
     (case root w of
        Some d \<Rightarrow>
          if d \<noteq> Map.empty then (Exit 1, w\<lparr>out := out w @ [DirNotEmpty]\<rparr>)
          else (Continue args, w\<lparr>root := Some (d(''args.json'' \<mapsto> JsonObject args))\<rparr>)
      | None \<Rightarrow>
          (Continue args, w\<lparr>root := Some (Map.empty(''args.json'' \<mapsto> JsonObject args))\<rparr>))"

text \<open>Lines 231 to 239: the two arguments that are required in the end.\<close>

definition check_required :: "args \<Rightarrow> world \<Rightarrow> args outcome \<times> world" where
  "check_required args w =
     (case map_of args ''train_set'' of
        None \<Rightarrow> (Raise AttributeError, w)
      | Some train_set \<Rightarrow>
          if \<not> py_truthy train_set
          then (Exit 1, w\<lparr>out := out w @ [PrintHelp, ErrorNoTrainSet]\<rparr>)
          else
            (case map_of args ''image_root'' of
               None \<Rightarrow> (Raise AttributeError, w)
             | Some image_root \<Rightarrow>
                 if \<not> py_truthy image_root
                 then (Exit 1, w\<lparr>out := out w @ [PrintHelp, ErrorNoImageRoot]\<rparr>)
                 else (Continue args, w)))"

text \<open>
  Lines 176 to 239 of \<^verbatim>\<open>main\<close>, from the parsed arguments on.  The logging set up in
  lines 222 to 229 is kept as one message with the parameters; the handlers come from
  \<^verbatim>\<open>common.get_logging_dict\<close>, which is not among the sources, so a log file they may
  open in the experiment root is not tracked in \<open>root\<close>.
\<close>

definition main_args :: "args \<Rightarrow> world \<Rightarrow> args outcome \<times> world" where
  "main_args args w =
     (case map_of args ''resume'' of
        None \<Rightarrow> (Raise AttributeError, w)
      | Some resume \<Rightarrow>
          (case (if py_truthy resume then load_args args w else store_args args w) of
             (Continue args', w') \<Rightarrow>
               check_required args' (w'\<lparr>out := out w' @ [LogParameters args']\<rparr>)
           | (Exit n, w') \<Rightarrow> (Exit n, w')
           | (Raise e, w') \<Rightarrow> (Raise e, w')))"

section \<open>The training loop of \<^verbatim>\<open>main\<close>: lines 450 to 532\<close>

text \<open>
  What the loop leaves behind: the local variable \<^verbatim>\<open>step\<close> (unbound until the first
  iteration assigns it), the global steps of the checkpoints saved so far, and the log.
\<close>

record loop_state =
  step :: "int option"
  checkpoints :: "int list"
  log :: "message list"

text \<open>
  Lines 457 to 526.  \<open>run_step i\<close> stands for the two \<^verbatim>\<open>sess.run\<close> calls of iteration
  \<open>i\<close>: the value fetched for \<^verbatim>\<open>global_step\<close>, or the exception they raise.

  Modelled from the spec: \<^verbatim>\<open>lb.Uninterrupt\<close> is not among the sources.  By the spec an
  interruption signal only sets a flag that is observed once per completed step;
  \<open>interrupted i\<close> is the value of \<^verbatim>\<open>u.interrupted\<close> read at the end of iteration \<open>i\<close>.
\<close>

function train_loop ::
  "(int \<Rightarrow> error + int) \<Rightarrow> (int \<Rightarrow> bool) \<Rightarrow> int \<Rightarrow> int \<Rightarrow> int \<Rightarrow> loop_state
     \<Rightarrow> error option \<times> loop_state" where
  "train_loop run_step interrupted checkpoint_frequency train_iterations i s =
     (if i < train_iterations then
        (case run_step i of
           Inl e \<Rightarrow> (Some e, s)
         | Inr fetched \<Rightarrow>
             (let s1 = s\<lparr>step := Some fetched, log := log s @ [LogIter fetched]\<rparr>;
                  s2 = (if checkpoint_frequency > 0 \<and> fetched mod checkpoint_frequency = 0
                        then s1\<lparr>checkpoints := checkpoints s1 @ [fetched]\<rparr> else s1)
              in if interrupted i then (None, s2\<lparr>log := log s2 @ [LogInterrupted]\<rparr>)
                 else train_loop run_step interrupted checkpoint_frequency train_iterations
                        (i + 1) s2))
      else (None, s))"
  by pat_completeness auto
termination
  by (relation "measure (\<lambda>(run_step, interrupted, checkpoint_frequency, train_iterations, i, s).
        nat (train_iterations - i))") auto

text \<open>
  Lines 528 to 532: \<^verbatim>\<open>checkpoint_saver.save(..., global_step=step)\<close>.  Reading a local
  variable that was never assigned raises \<^verbatim>\<open>UnboundLocalError\<close>, a \<^verbatim>\<open>NameError\<close>.
\<close>

definition final_checkpoint :: "loop_state \<Rightarrow> error option \<times> loop_state" where
  "final_checkpoint s =
     (case step s of
        None \<Rightarrow> (Some NameError, s)
      | Some last_step \<Rightarrow> (None, s\<lparr>checkpoints := checkpoints s @ [last_step]\<rparr>))"

text \<open>
  Lines 450 to 532: the loop from \<open>start_step\<close>, the restored value of \<^verbatim>\<open>global_step\<close>,
  followed by the final save.  \<open>saved\<close> are the checkpoints that exist when the loop
  starts.  An exception inside the loop leaves \<^verbatim>\<open>main\<close> before the final save.
\<close>

definition train ::
  "(int \<Rightarrow> error + int) \<Rightarrow> (int \<Rightarrow> bool) \<Rightarrow> int \<Rightarrow> int \<Rightarrow> int \<Rightarrow> int list
     \<Rightarrow> error option \<times> loop_state" where
  "train run_step interrupted checkpoint_frequency train_iterations start_step saved =
     (case train_loop run_step interrupted checkpoint_frequency train_iterations start_step
             \<lparr>step = None, checkpoints = saved, log = [LogStart start_step]\<rparr> of
        (Some e, s) \<Rightarrow> (Some e, s)
      | (None, s) \<Rightarrow> final_checkpoint s)"

section \<open>Properties of the primitives\<close>

declare train_loop.simps [simp del]

lemma mset_remove_nth:
  assumes "i < length ys"
  shows "add_mset (ys ! i) (mset (take i ys @ drop (Suc i) ys)) = mset ys"
proof -
  from assms have "ys = take i ys @ ys ! i # drop (Suc i) ys"
    by (rule id_take_nth_drop)
  then have "mset ys = mset (take i ys @ ys ! i # drop (Suc i) ys)"
    by simp
  then show ?thesis
    by simp
qed

lemma mset_shuffle: "mset (shuffle rs xs) = mset xs"
proof (induction rs xs rule: shuffle.induct)
  case (1 rs)
  show ?case by simp
next
  case (2 rs x xs)
  define i where "i = (case rs of [] \<Rightarrow> 0 | r # _ \<Rightarrow> r) mod length (x # xs)"
  have lt: "i < length (x # xs)"
    unfolding i_def by simp
  have "mset (shuffle (tl rs) (take i (x # xs) @ drop (Suc i) (x # xs)))
        = mset (take i (x # xs) @ drop (Suc i) (x # xs))"
    using "2.IH"[OF refl, of i] i_def by simp
  then have "mset (shuffle rs (x # xs))
        = add_mset ((x # xs) ! i) (mset (take i (x # xs) @ drop (Suc i) (x # xs)))"
    by (simp add: Let_def i_def del: drop_Suc_Cons)
  also have "\<dots> = mset (x # xs)"
    using lt by (rule mset_remove_nth)
  finally show ?case .
qed

lemma shuffle_reaches:
  assumes "mset ys = mset xs"
  shows "\<exists>rs. shuffle rs xs = ys"
  using assms
proof (induction ys arbitrary: xs)
  case Nil
  then show ?case by simp
next
  case (Cons y ys)
  then have "y \<in> set xs"
    by (metis list.set_intros(1) set_mset_mset)
  then obtain i where i: "i < length xs" "xs ! i = y"
    by (auto simp: in_set_conv_nth)
  then obtain x xs' where xs: "xs = x # xs'"
    by (cases xs) auto
  have "add_mset y (mset (take i xs @ drop (Suc i) xs)) = mset xs"
    using mset_remove_nth[OF i(1)] i(2) by simp
  moreover from Cons.prems have "add_mset y (mset ys) = mset xs"
    by simp
  ultimately have "add_mset y (mset ys) = add_mset y (mset (take i xs @ drop (Suc i) xs))"
    by (simp only:)
  then have "mset ys = mset (take i xs @ drop (Suc i) xs)"
    by (simp only: add_mset_add_mset_same_iff)
  from Cons.IH[OF this] obtain rs where rs: "shuffle rs (take i xs @ drop (Suc i) xs) = ys" ..
  have "shuffle (i # rs) xs = y # ys"
    using i rs unfolding xs by (simp add: Let_def del: drop_Suc_Cons)
  then show ?case ..
qed

lemma length_shuffle: "length (shuffle rs xs) = length xs"
  using mset_shuffle[of rs xs] by (metis size_mset)

lemma set_shuffle: "set (shuffle rs xs) = set xs"
  using mset_shuffle[of rs xs] by (metis set_mset_mset)

lemma distinct_shuffle: "distinct (shuffle rs xs) = distinct xs"
  using mset_shuffle[of rs xs] by (metis mset_eq_imp_distinct_iff)

lemma boolean_mask_ok:
  "length tensor = length msk \<Longrightarrow>
     boolean_mask tensor msk = Inr (map fst (filter snd (zip tensor msk)))"
  by (simp add: boolean_mask_def)

lemma boolean_mask_Inr:
  "boolean_mask tensor msk = Inr ys \<Longrightarrow>
     length tensor = length msk \<and> ys = map fst (filter snd (zip tensor msk))"
  by (auto simp: boolean_mask_def split: if_splits)

lemma boolean_mask_length:
  assumes "boolean_mask tensor msk = Inr ys"
  shows "length ys \<le> length tensor"
proof -
  from assms have "ys = map fst (filter snd (zip tensor msk))"
    by (simp add: boolean_mask_Inr)
  then have "length ys = length (filter snd (zip tensor msk))"
    by simp
  also have "\<dots> \<le> length (zip tensor msk)"
    by (rule length_filter_le)
  also have "\<dots> \<le> length tensor"
    by simp
  finally show ?thesis .
qed

lemma gather_ok:
  "\<forall>i \<in> set indices. i < length params \<Longrightarrow>
     gather params indices = Inr (map ((!) params) indices)"
  by (simp add: gather_def list_all_iff)

section \<open>The float32 quotient of line 165\<close>

declare bit_length.simps [simp del]

lemma bit_length_0: "bit_length 0 = 0"
  by (simp add: bit_length.simps)

lemma bit_length_pos: "0 < n \<Longrightarrow> bit_length n = Suc (bit_length (n div 2))"
  by (subst bit_length.simps) simp

lemma bit_length_bounds:
  "0 < n \<Longrightarrow> 2 ^ (bit_length n - 1) \<le> n \<and> n < 2 ^ bit_length n"
proof (induction n rule: bit_length.induct)
  case (1 n)
  show ?case
  proof (cases "n div 2 = 0")
    case True
    with "1.prems" have "n = 1"
      by (simp add: div_eq_0_iff)
    then show ?thesis
      by (simp add: bit_length_pos bit_length_0)
  next
    case False
    with "1.IH" "1.prems" have ih: "2 ^ (bit_length (n div 2) - 1) \<le> n div 2"
        "n div 2 < 2 ^ bit_length (n div 2)"
      by simp_all
    have bl: "bit_length n = Suc (bit_length (n div 2))"
      using "1.prems" by (rule bit_length_pos)
    have pos: "0 < bit_length (n div 2)"
      using False by (simp add: bit_length_pos)
    then obtain k where k: "bit_length (n div 2) = Suc k"
      by (cases "bit_length (n div 2)") simp_all
    from ih show ?thesis
      unfolding bl k by simp linarith
  qed
qed

lemma bit_length_le:
  assumes "n < 2 ^ k"
  shows "bit_length n \<le> k"
proof (cases "n = 0")
  case True
  then show ?thesis by (simp add: bit_length_0)
next
  case False
  with bit_length_bounds[of n] have "2 ^ (bit_length n - 1) \<le> n"
    by simp
  with assms have "(2::nat) ^ (bit_length n - 1) < 2 ^ k"
    by linarith
  then have "bit_length n - 1 < k"
    by simp
  then show ?thesis
    by linarith
qed

lemma f32_of_nat_exact:
  assumes "n < 2 ^ 24"
  shows "f32_of_nat n = n"
proof -
  from assms have "bit_length n - 24 = 0"
    using bit_length_le[of n 24] by simp
  then show ?thesis
    by (simp add: f32_of_nat_def round_half_even_div_def)
qed

lemma round_half_even_div_bounds:
  assumes "0 < b"
  shows "a div b \<le> round_half_even_div a b \<and> round_half_even_div a b \<le> Suc (a div b)"
  by (simp add: round_half_even_div_def Let_def)

lemma round_half_even_div_dvd:
  assumes "0 < b" and "a mod b = 0"
  shows "round_half_even_div a b = a div b"
  using assms by (simp add: round_half_even_div_def Let_def)

lemma round_half_even_div_up:
  assumes "b < 2 * (a mod b)"
  shows "round_half_even_div a b = Suc (a div b)"
  using assms by (simp add: round_half_even_div_def Let_def)

lemma div_block: "t < s \<Longrightarrow> (d * s + t) div s = (d::nat)"
  by simp

lemma f32_ceil_quotient_above_one_exact:
  assumes c: "0 < cnt" and lt: "cnt < k" and k: "k < 2 ^ 24"
  shows "f32_ceil_quotient_above_one k cnt = (if k mod cnt = 0 then k div cnt else Suc (k div cnt))"
proof -
  define d where "d = k div cnt"
  define r where "r = k mod cnt"
  define e where "e = bit_length d - 1"
  have kdr: "k = d * cnt + r"
    unfolding d_def r_def by simp
  have r_lt: "r < cnt"
    unfolding r_def using c by simp
  have d_pos: "0 < d"
    unfolding d_def using c lt by (simp add: div_greater_zero_iff)
  from bit_length_bounds[OF d_pos] have e_le: "2 ^ e \<le> d" and d_lt: "d < 2 ^ bit_length d"
    unfolding e_def by simp_all
  have "d \<le> k"
    unfolding d_def by simp
  with k have "d < 2 ^ 24"
    by linarith
  then have "bit_length d \<le> 24"
    by (rule bit_length_le)
  then have e23: "e \<le> 23"
    unfolding e_def by linarith
  have cnt_small: "cnt * 2 ^ e < 2 ^ 24"
  proof -
    have "cnt * 2 ^ e \<le> cnt * d"
      using e_le by simp
    also have "\<dots> \<le> k"
      unfolding kdr by (simp add: mult.commute)
    finally show ?thesis
      using k by linarith
  qed
  show ?thesis
  proof (cases "e = 23")
    case True
    with cnt_small have "cnt * 2 ^ 23 < 2 * 2 ^ 23"
      by simp
    then have "cnt < 2"
      by simp
    with c have cnt1: "cnt = 1"
      by linarith
    have "bit_length (k div cnt) - 1 = 23"
      using True unfolding e_def d_def .
    then have bl: "bit_length (k div cnt) = 24"
      by linarith
    have "f32_ceil_quotient_above_one k cnt = round_half_even_div k cnt"
      by (simp add: f32_ceil_quotient_above_one_def Let_def bl)
    then show ?thesis
      unfolding cnt1 by (simp add: round_half_even_div_def)
  next
    case False
    with e23 have e_lt: "e < 23"
      by linarith
    define s :: nat where "s = 2 ^ (23 - e)"
    have s_pos: "0 < s"
      unfolding s_def by simp
    have pw: "2 ^ e * (2 * s) = (2::nat) ^ 24"
    proof -
      have "2 ^ e * (2 * s) = (2::nat) ^ (e + (1 + (23 - e)))"
        unfolding s_def by (simp add: power_add)
      also have "e + (1 + (23 - e)) = 24"
        using e_lt by simp
      finally show ?thesis .
    qed
    have cnt_2s: "cnt < 2 * s"
    proof (rule ccontr)
      assume "\<not> cnt < 2 * s"
      then have "2 * s \<le> cnt"
        by simp
      then have "2 ^ e * (2 * s) \<le> 2 ^ e * cnt"
        by (rule mult_le_mono2)
      then have "(2::nat) ^ 24 \<le> 2 ^ e * cnt"
        unfolding pw .
      moreover have "2 ^ e * cnt = cnt * 2 ^ e"
        by (rule mult.commute)
      ultimately show False
        using cnt_small by linarith
    qed
    define n' where "n' = round_half_even_div (k * s) cnt"
    have res: "f32_ceil_quotient_above_one k cnt = (n' + s - 1) div s"
      unfolding f32_ceil_quotient_above_one_def Let_def e_def[symmetric] d_def[symmetric] n'_def s_def
      using e_lt by simp
    have ks: "k * s = d * s * cnt + r * s"
      unfolding kdr by (simp add: algebra_simps)
    show ?thesis
    proof (cases "r = 0")
      case True
      then have eq: "k * s = (d * s) * cnt"
        using ks by simp
      have "(k * s) div cnt = d * s" "(k * s) mod cnt = 0"
        unfolding eq using c by simp_all
      then have "n' = d * s"
        unfolding n'_def using c by (simp add: round_half_even_div_dvd)
      then have "n' + s - 1 = d * s + (s - 1)"
        using s_pos by simp
      then have "(n' + s - 1) div s = (d * s + (s - 1)) div s"
        by (simp only:)
      also have "\<dots> = d"
        using s_pos by (intro div_block) simp
      finally show ?thesis
        using True res unfolding r_def d_def by simp
    next
      case False
      define u where "u = (r * s) div cnt"
      define v where "v = (r * s) mod cnt"
      have rs: "r * s = u * cnt + v"
        unfolding u_def v_def by simp
      have v_lt: "v < cnt"
        unfolding v_def using c by simp
      have "r * s < cnt * s"
        using r_lt s_pos by simp
      then have u_lt: "u < s"
        unfolding u_def using c by (simp add: less_mult_imp_div_less mult.commute)
      have "k * s = (d * s + u) * cnt + v"
        unfolding ks rs by (simp add: algebra_simps)
      with v_lt have q: "(k * s) div cnt = d * s + u" and m: "(k * s) mod cnt = v"
        by (metis div_mult_self3 div_less add.right_neutral add.commute mult.commute
            mod_mult_self3 mod_less less_nat_zero_code not_gr_zero)+
      from round_half_even_div_bounds[OF c, of "k * s"]
      have lo: "d * s + u \<le> n'" and hi: "n' \<le> Suc (d * s + u)"
        unfolding n'_def q by simp_all
      have gt: "d * s < n'"
      proof (cases "u = 0")
        case False
        with lo show ?thesis
          by linarith
      next
        case True
        with rs have "v = r * s"
          by simp
        moreover from False have "s \<le> r * s"
          by simp
        ultimately have "cnt < 2 * v"
          using cnt_2s by linarith
        then have "n' = Suc (d * s + u)"
          unfolding n'_def using m q by (simp add: round_half_even_div_up)
        then show ?thesis
          by linarith
      qed
      from hi u_lt have le: "n' \<le> d * s + s"
        by linarith
      have "(n' + s - 1) div s = Suc d"
      proof -
        from gt le obtain t where t: "n' + s - 1 = Suc d * s + t" "t < s"
        proof -
          have "n' + s - 1 = Suc d * s + (n' - d * s - 1)"
            using gt by simp
          moreover have "n' - d * s - 1 < s"
            using gt le s_pos by linarith
          ultimately show ?thesis
            using that by blast
        qed
        from t(2) have "(Suc d * s + t) div s = Suc d"
          by (rule div_block)
        then show ?thesis
          by (simp only: t(1))
      qed
      with False res show ?thesis
        unfolding r_def d_def by simp
    qed
  qed
qed

lemma round_half_even_div_mono:
  assumes "0 < b" and "a \<le> a'"
  shows "round_half_even_div a b \<le> round_half_even_div a' b"
proof (cases "a div b = a' div b")
  case False
  from assms(2) have "a div b \<le> a' div b"
    by (rule div_le_mono)
  with False have "Suc (a div b) \<le> a' div b"
    by linarith
  with round_half_even_div_bounds[OF assms(1), of a] round_half_even_div_bounds[OF assms(1), of a']
  show ?thesis
    by linarith
next
  case True
  have "a = a div b * b + a mod b" "a' = a' div b * b + a' mod b"
    by simp_all
  with True assms(2) have "a mod b \<le> a' mod b"
    by (metis add_le_cancel_left)
  with True show ?thesis
    by (simp add: round_half_even_div_def Let_def)
qed

lemma round_half_even_div_mult: "0 < b \<Longrightarrow> round_half_even_div (c * b) b = c"
  by (simp add: round_half_even_div_def)

lemma bit_length_mono: "n \<le> m \<Longrightarrow> bit_length n \<le> bit_length m"
proof (cases "n = 0")
  case True
  then show ?thesis
    by (simp add: bit_length_0)
next
  case False
  assume nm: "n \<le> m"
  with False have m: "0 < m" and n: "0 < n"
    by simp_all
  from bit_length_bounds[OF n] bit_length_bounds[OF m] nm
  have "(2::nat) ^ (bit_length n - 1) < 2 ^ bit_length m"
    by linarith
  then have "bit_length n - 1 < bit_length m"
    by simp
  then show ?thesis
    by linarith
qed

lemma f32_of_nat_pos:
  assumes "0 < n"
  shows "0 < f32_of_nat n"
proof -
  define sh where "sh = bit_length n - 24"
  have "(2::nat) ^ sh \<le> 2 ^ (bit_length n - 1)"
    unfolding sh_def by (intro power_increasing) simp_all
  also have "\<dots> \<le> n"
    using bit_length_bounds[OF assms] by simp
  finally have "1 \<le> n div 2 ^ sh"
    by (simp add: div_greater_zero_iff Suc_le_eq)
  with round_half_even_div_bounds[of "2 ^ sh" n] have "0 < round_half_even_div n (2 ^ sh)"
    by simp
  then show ?thesis
    unfolding f32_of_nat_def Let_def sh_def[symmetric] by simp
qed

lemma f32_of_nat_range:
  assumes "0 < n"
  shows "2 ^ (bit_length n - 1) \<le> f32_of_nat n \<and> f32_of_nat n \<le> 2 ^ bit_length n"
proof -
  define L where "L = bit_length n"
  define sh where "sh = L - 24"
  from bit_length_bounds[OF assms] have lo: "2 ^ (L - 1) \<le> n" and hi: "n < 2 ^ L"
    unfolding L_def by simp_all
  have Lpos: "0 < L"
    using hi assms by (cases L) simp_all
  have sh1: "sh \<le> L - 1"
    unfolding sh_def by simp
  have p1: "(2::nat) ^ (L - 1) = 2 ^ (L - 1 - sh) * 2 ^ sh"
    using sh1 by (simp add: power_add[symmetric])
  have p2: "(2::nat) ^ L = 2 ^ (L - sh) * 2 ^ sh"
    using sh1 by (simp add: power_add[symmetric])
  have b: "(0::nat) < 2 ^ sh"
    by simp
  have "round_half_even_div (2 ^ (L - 1 - sh) * 2 ^ sh) (2 ^ sh)
      \<le> round_half_even_div n (2 ^ sh)"
    using b lo unfolding p1 by (rule round_half_even_div_mono)
  then have a: "2 ^ (L - 1 - sh) \<le> round_half_even_div n (2 ^ sh)"
    by (simp only: round_half_even_div_mult[OF b])
  have "round_half_even_div n (2 ^ sh)
      \<le> round_half_even_div (2 ^ (L - sh) * 2 ^ sh) (2 ^ sh)"
    using b hi unfolding p2 by (intro round_half_even_div_mono) simp_all
  then have c: "round_half_even_div n (2 ^ sh) \<le> 2 ^ (L - sh)"
    by (simp only: round_half_even_div_mult[OF b])
  from a have "2 ^ (L - 1 - sh) * 2 ^ sh \<le> round_half_even_div n (2 ^ sh) * (2::nat) ^ sh"
    by (rule mult_le_mono1)
  moreover from c have "round_half_even_div n (2 ^ sh) * (2::nat) ^ sh \<le> 2 ^ (L - sh) * 2 ^ sh"
    by (rule mult_le_mono1)
  ultimately show ?thesis
    unfolding f32_of_nat_def Let_def L_def[symmetric] sh_def[symmetric] p1[symmetric]
      p2[symmetric] by simp
qed

lemma f32_of_nat_mono:
  assumes "n \<le> m"
  shows "f32_of_nat n \<le> f32_of_nat m"
proof (cases "n = 0")
  case True
  then show ?thesis
    by (simp add: f32_of_nat_def bit_length_0 round_half_even_div_def)
next
  case False
  with assms have n: "0 < n" and m: "0 < m"
    by simp_all
  show ?thesis
  proof (cases "bit_length n = bit_length m")
    case True
    have "round_half_even_div n (2 ^ (bit_length m - 24))
        \<le> round_half_even_div m (2 ^ (bit_length m - 24))"
      using assms by (intro round_half_even_div_mono) simp_all
    then show ?thesis
      unfolding f32_of_nat_def Let_def True by simp
  next
    case False
    with bit_length_mono[OF assms] have "bit_length n \<le> bit_length m - 1"
      by linarith
    then have "(2::nat) ^ bit_length n \<le> 2 ^ (bit_length m - 1)"
      by (intro power_increasing) simp_all
    with f32_of_nat_range[OF n] f32_of_nat_range[OF m] show ?thesis
      by linarith
  qed
qed

section \<open>Properties of the padded index pool\<close>

lemma concat_replicate_snoc: "concat (replicate (Suc c) xs) = concat (replicate c xs) @ xs"
  by (induction c) simp_all

lemma map_mod_block: "map (\<lambda>i. i mod n) [c * n..<c * n + n] = [0..<n]"
proof (rule nth_equalityI)
  show "length (map (\<lambda>i. i mod n) [c * n..<c * n + n]) = length [0..<n]"
    by simp
next
  fix i
  assume "i < length (map (\<lambda>i. i mod n) [c * n..<c * n + n])"
  then have i: "i < n"
    by simp
  then have "map (\<lambda>i. i mod n) [c * n..<c * n + n] ! i = (c * n + i) mod n"
    by simp
  also have "\<dots> = i"
    using i by simp
  finally show "map (\<lambda>i. i mod n) [c * n..<c * n + n] ! i = [0..<n] ! i"
    using i by simp
qed

lemma map_mod_upt: "map (\<lambda>i. i mod n) [0..<c * n] = concat (replicate c [0..<n])"
proof (induction c)
  case 0
  show ?case by simp
next
  case (Suc c)
  have "[0..<c * n + n] = [0..<c * n] @ [c * n..<c * n + n]"
    by (rule upt_add_eq_append) simp
  moreover have "Suc c * n = c * n + n"
    by simp
  ultimately have "map (\<lambda>i. i mod n) [0..<Suc c * n]
      = map (\<lambda>i. i mod n) [0..<c * n] @ map (\<lambda>i. i mod n) [c * n..<c * n + n]"
    by (simp only: map_append)
  also have "\<dots> = concat (replicate c [0..<n]) @ [0..<n]"
    by (simp only: Suc.IH map_mod_block)
  also have "\<dots> = concat (replicate (Suc c) [0..<n])"
    by (simp only: concat_replicate_snoc)
  finally show ?case .
qed

lemma count_list_concat_replicate:
  "count_list (concat (replicate c xs)) x = c * count_list xs x"
  by (induction c) simp_all

lemma count_list_upt: "count_list [0..<n] j = (if j < n then 1 else 0)"
  by (induction n) auto

lemma ceiling_small:
  assumes "batch_k \<le> cnt" "0 < batch_k"
  shows "nat \<lceil>real batch_k / real cnt\<rceil> = 1"
proof -
  have "0 < real batch_k / real cnt" using assms by simp
  moreover have "real batch_k / real cnt \<le> 1" using assms by simp
  ultimately have "\<lceil>real batch_k / real cnt\<rceil> = 1"
    by (simp add: ceiling_eq_iff)
  then show ?thesis by simp
qed

lemma ceiling_nat_div:
  assumes "0 < cnt"
  shows "nat \<lceil>real batch_k / real cnt\<rceil>
           = (if batch_k mod cnt = 0 then batch_k div cnt else Suc (batch_k div cnt))"
proof -
  have fl: "\<lfloor>real batch_k / real cnt\<rfloor> = int (batch_k div cnt)"
    by (rule floor_divide_of_nat_eq)
  have "(real batch_k / real cnt = real (batch_k div cnt)) = (batch_k mod cnt = 0)"
  proof -
    have "(real batch_k / real cnt = real (batch_k div cnt))
        = (real batch_k = real (batch_k div cnt) * real cnt)"
      using assms by (simp add: divide_eq_eq)
    also have "\<dots> = (real batch_k = real (batch_k div cnt * cnt))"
      by simp
    also have "\<dots> = (batch_k = batch_k div cnt * cnt)"
      by (simp only: of_nat_eq_iff)
    also have "\<dots> = (batch_k mod cnt = 0)"
      using div_mult_mod_eq[of batch_k cnt] by arith
    finally show ?thesis .
  qed
  then show ?thesis
    by (simp add: ceiling_altdef fl nat_add_distrib)
qed

lemma padded_count_zero: "padded_count batch_k 0 = 0"
  by (simp add: padded_count_def)

lemma padded_count_small:
  assumes "batch_k \<le> cnt"
  shows "padded_count batch_k cnt = (if batch_k = 0 then 0 else cnt)"
proof (cases "batch_k = 0")
  case True
  then show ?thesis
    by (simp add: padded_count_def f32_ceil_quotient_def f32_of_nat_def bit_length_0
        round_half_even_div_def)
next
  case False
  then have "0 < f32_of_nat batch_k"
    by (simp add: f32_of_nat_pos)
  moreover from assms have "f32_of_nat batch_k \<le> f32_of_nat cnt"
    by (rule f32_of_nat_mono)
  ultimately have "f32_ceil_quotient (f32_of_nat batch_k) (f32_of_nat cnt) = 1"
    by (simp add: f32_ceil_quotient_def)
  with False show ?thesis
    by (simp add: padded_count_def)
qed

lemma padded_count_exact:
  assumes "batch_k < 2 ^ 24" and "cnt < 2 ^ 24"
  shows "padded_count batch_k cnt = nat \<lceil>real batch_k / real cnt\<rceil> * cnt"
proof (cases "cnt = 0")
  case True
  then show ?thesis
    by (simp add: padded_count_zero)
next
  case False
  then have c: "0 < cnt"
    by simp
  have q: "padded_count batch_k cnt = f32_ceil_quotient batch_k cnt * cnt"
    unfolding padded_count_def f32_of_nat_exact[OF assms(1)] f32_of_nat_exact[OF assms(2)] ..
  show ?thesis
  proof (cases "batch_k = 0")
    case True
    then show ?thesis
      unfolding q by (simp add: f32_ceil_quotient_def)
  next
    case k: False
    show ?thesis
    proof (cases "batch_k \<le> cnt")
      case True
      with k have "nat \<lceil>real batch_k / real cnt\<rceil> = 1"
        by (simp add: ceiling_small)
      with True k show ?thesis
        unfolding q by (simp add: f32_ceil_quotient_def)
    next
      case False
      then have lt: "cnt < batch_k"
        by simp
      from False k have "f32_ceil_quotient batch_k cnt = f32_ceil_quotient_above_one batch_k cnt"
        by (simp add: f32_ceil_quotient_def)
      also have "\<dots> = (if batch_k mod cnt = 0 then batch_k div cnt else Suc (batch_k div cnt))"
        using c lt assms(1) by (rule f32_ceil_quotient_above_one_exact)
      also have "\<dots> = nat \<lceil>real batch_k / real cnt\<rceil>"
        using c by (simp only: ceiling_nat_div)
      finally show ?thesis
        unfolding q by simp
    qed
  qed
qed

lemma count_list_full_range:
  assumes "batch_k < 2 ^ 24" and "cnt < 2 ^ 24"
  shows "count_list (full_range batch_k cnt) j =
     (if j < cnt then nat \<lceil>real batch_k / real cnt\<rceil> else 0)"
  by (simp add: full_range_def padded_count_exact[OF assms] map_mod_upt
      count_list_concat_replicate count_list_upt)

lemma length_full_range: "length (full_range batch_k cnt) = padded_count batch_k cnt"
  by (simp add: full_range_def)

lemma set_full_range:
  assumes "j \<in> set (full_range batch_k cnt)"
  shows "j < cnt"
proof (cases "cnt = 0")
  case True
  with assms show ?thesis
    by (simp add: full_range_def padded_count_zero)
next
  case False
  from assms obtain i where "j = i mod cnt"
    unfolding full_range_def by auto
  with False show ?thesis
    by simp
qed

lemma padded_count_ge:
  assumes "0 < cnt" and "batch_k < 2 ^ 24" and "cnt < 2 ^ 24"
  shows "batch_k \<le> padded_count batch_k cnt"
proof -
  define c where "c = nat \<lceil>real batch_k / real cnt\<rceil>"
  have "0 \<le> real batch_k / real cnt"
    by simp
  then have "0 \<le> \<lceil>real batch_k / real cnt\<rceil>"
    by (simp only: zero_le_ceiling)
  then have c: "real c = of_int \<lceil>real batch_k / real cnt\<rceil>"
    unfolding c_def by simp
  have "real batch_k / real cnt \<le> real c"
    unfolding c by (rule le_of_int_ceiling)
  moreover have "0 < real cnt"
    using assms(1) by simp
  ultimately have "real batch_k \<le> real c * real cnt"
    by (simp only: pos_divide_le_eq)
  then have "real batch_k \<le> real (c * cnt)"
    by simp
  then have "batch_k \<le> c * cnt"
    by (simp only: of_nat_le_iff)
  then show ?thesis
    unfolding padded_count_exact[OF assms(2,3)] c_def .
qed

lemma distinct_full_range:
  assumes "batch_k \<le> cnt"
  shows "distinct (full_range batch_k cnt)"
proof (cases "batch_k = 0")
  case True
  with assms show ?thesis
    by (simp add: full_range_def padded_count_small)
next
  case False
  with assms have "full_range batch_k cnt = map (\<lambda>i. i mod cnt) [0..<cnt]"
    by (simp add: full_range_def padded_count_small)
  also have "\<dots> = [0..<cnt]"
    by (rule nth_equalityI) auto
  finally show ?thesis
    by simp
qed

lemma full_range_4_3: "full_range 4 3 = [0, 1, 2, 0, 1, 2]"
  by (simp add: full_range_def padded_count_exact upt_rec)

lemma selected_indices_4_3: "selected_indices [0, 2, 0, 1, 0, 0] 4 3 = [0, 0, 1, 1]"
  by (simp add: selected_indices_def full_range_4_3 Let_def)

lemma length_selected_indices_min:
  "length (selected_indices rs batch_k cnt) = min batch_k (padded_count batch_k cnt)"
  by (simp only: selected_indices_def length_take length_shuffle length_full_range min.commute)

lemma length_selected_indices:
  assumes "0 < cnt" and "batch_k < 2 ^ 24" and "cnt < 2 ^ 24"
  shows "length (selected_indices rs batch_k cnt) = batch_k"
  using padded_count_ge[OF assms] by (simp only: length_selected_indices_min min_def if_True)

lemma selected_indices_lt:
  assumes "j \<in> set (selected_indices rs batch_k cnt)"
  shows "j < cnt"
proof -
  from assms have "j \<in> set (shuffle rs (full_range batch_k cnt))"
    unfolding selected_indices_def by (rule in_set_takeD)
  then have "j \<in> set (full_range batch_k cnt)"
    by (simp only: set_shuffle)
  then show ?thesis
    by (rule set_full_range)
qed

lemma distinct_selected_indices:
  assumes "batch_k \<le> cnt"
  shows "distinct (selected_indices rs batch_k cnt)"
proof -
  have "distinct (shuffle rs (full_range batch_k cnt))"
    using distinct_full_range[OF assms] by (simp only: distinct_shuffle)
  then show ?thesis
    unfolding selected_indices_def by (rule distinct_take)
qed

section \<open>What one call of the K-selector returns\<close>

lemma count_list_shuffle: "count_list (shuffle rs xs) x = count_list xs x"
  using mset_shuffle[of rs xs] by (metis count_mset)

lemma count_list_take_drop:
  "count_list (take n xs) x + count_list (drop n xs) x = count_list xs x"
proof -
  have "count_list (take n xs) x + count_list (drop n xs) x
      = count_list (take n xs @ drop n xs) x"
    by (simp only: count_list_append)
  then show ?thesis
    by (simp only: append_take_drop_id)
qed

lemma count_selected_upper:
  assumes "j < cnt" and "batch_k < 2 ^ 24" and "cnt < 2 ^ 24"
  shows "count_list (selected_indices rs batch_k cnt) j \<le> nat \<lceil>real batch_k / real cnt\<rceil>"
proof -
  let ?s = "shuffle rs (full_range batch_k cnt)"
  have "count_list (take batch_k ?s) j \<le> count_list ?s j"
    using count_list_take_drop[of batch_k ?s j] by linarith
  also have "\<dots> = nat \<lceil>real batch_k / real cnt\<rceil>"
    using assms(1) by (simp add: count_list_shuffle count_list_full_range[OF assms(2,3)])
  finally show ?thesis
    unfolding selected_indices_def .
qed

lemma count_selected_lower:
  assumes "j < cnt" and "batch_k < 2 ^ 24" and "cnt < 2 ^ 24"
  shows "nat \<lceil>real batch_k / real cnt\<rceil> - (padded_count batch_k cnt - batch_k)
           \<le> count_list (selected_indices rs batch_k cnt) j"
proof -
  let ?s = "shuffle rs (full_range batch_k cnt)"
  have "count_list (drop batch_k ?s) j \<le> length (drop batch_k ?s)"
    by (rule count_le_length)
  also have "\<dots> = padded_count batch_k cnt - batch_k"
    by (simp add: length_shuffle length_full_range)
  finally have d: "count_list (drop batch_k ?s) j \<le> padded_count batch_k cnt - batch_k" .
  have "count_list ?s j = nat \<lceil>real batch_k / real cnt\<rceil>"
    using assms(1) by (simp add: count_list_shuffle count_list_full_range[OF assms(2,3)])
  then have "count_list (take batch_k ?s) j + count_list (drop batch_k ?s) j
      = nat \<lceil>real batch_k / real cnt\<rceil>"
    by (simp only: count_list_take_drop)
  with d show ?thesis
    unfolding selected_indices_def by linarith
qed

lemma sample_k_unfold:
  assumes "boolean_mask all_fids (map (\<lambda>q. q = pid) all_pids) = Inr possible_fids"
  shows "sample_k_fids_for_pid rs pid all_fids all_pids batch_k =
           Inr (map ((!) possible_fids) (selected_indices rs batch_k (length possible_fids)),
                replicate batch_k pid)"
proof -
  have "\<forall>i \<in> set (selected_indices rs batch_k (length possible_fids)). i < length possible_fids"
    by (simp add: selected_indices_lt)
  then have "gather possible_fids (selected_indices rs batch_k (length possible_fids))
      = Inr (map ((!) possible_fids) (selected_indices rs batch_k (length possible_fids)))"
    by (rule gather_ok)
  then show ?thesis
    using assms by (simp add: sample_k_fids_for_pid_def)
qed

lemma boolean_mask_member:
  assumes "boolean_mask all_fids (map (\<lambda>q. q = pid) all_pids) = Inr possible_fids"
      and "f \<in> set possible_fids"
  shows "(f, pid) \<in> set (zip all_fids all_pids)"
proof -
  from assms(1) have "possible_fids = map fst (filter snd (zip all_fids (map (\<lambda>q. q = pid) all_pids)))"
    by (simp add: boolean_mask_Inr)
  with assms(2) have "(f, True) \<in> set (zip all_fids (map (\<lambda>q. q = pid) all_pids))"
    by auto
  then obtain i where i: "i < length all_fids" "i < length all_pids"
      "all_fids ! i = f" "all_pids ! i = pid"
    by (auto simp: set_zip)
  then show ?thesis
    by (auto simp: set_zip)
qed

lemma boolean_mask_nonempty:
  assumes "length all_fids = length all_pids" and "pid \<in> set all_pids"
  shows "\<exists>possible_fids. boolean_mask all_fids (map (\<lambda>q. q = pid) all_pids) = Inr possible_fids
           \<and> 0 < length possible_fids"
proof -
  from assms(2) obtain i where i: "i < length all_pids" "all_pids ! i = pid"
    by (auto simp: in_set_conv_nth)
  with assms(1) have "(all_fids ! i, True) \<in> set (zip all_fids (map (\<lambda>q. q = pid) all_pids))"
    by (auto simp: set_zip)
  then have "all_fids ! i \<in> set (map fst (filter snd (zip all_fids (map (\<lambda>q. q = pid) all_pids))))"
    by force
  then have "0 < length (map fst (filter snd (zip all_fids (map (\<lambda>q. q = pid) all_pids))))"
    by (simp only: length_pos_if_in_set)
  then show ?thesis
    using assms(1) by (simp add: boolean_mask_ok)
qed

lemma count_selected_floor:
  assumes "j < cnt" and "batch_k mod cnt = 0 \<or> batch_k mod cnt = cnt - 1"
      and "batch_k < 2 ^ 24" and "cnt < 2 ^ 24"
  shows "batch_k div cnt \<le> count_list (selected_indices rs batch_k cnt) j"
proof -
  from assms(1) have pos: "0 < cnt"
    by simp
  have e: "batch_k div cnt * cnt + batch_k mod cnt = batch_k"
    by (rule div_mult_mod_eq)
  have low: "nat \<lceil>real batch_k / real cnt\<rceil> - (padded_count batch_k cnt - batch_k)
      \<le> count_list (selected_indices rs batch_k cnt) j"
    using assms(1,3,4) by (rule count_selected_lower)
  show ?thesis
  proof (cases "batch_k mod cnt = 0")
    case True
    then have "nat \<lceil>real batch_k / real cnt\<rceil> = batch_k div cnt"
      using pos by (simp add: ceiling_nat_div)
    moreover from this have "padded_count batch_k cnt = batch_k"
      using e True by (simp add: padded_count_exact[OF assms(3,4)])
    ultimately show ?thesis
      using low by simp
  next
    case False
    with assms(2) have m: "batch_k mod cnt = cnt - 1"
      by simp
    from False have c: "nat \<lceil>real batch_k / real cnt\<rceil> = Suc (batch_k div cnt)"
      using pos by (simp add: ceiling_nat_div)
    then have "padded_count batch_k cnt = batch_k div cnt * cnt + cnt"
      by (simp add: padded_count_exact[OF assms(3,4)])
    with e m pos have "padded_count batch_k cnt - batch_k = 1"
      by linarith
    with c low show ?thesis
      by simp
  qed
qed

text \<open>
  For an identity with at least one sample, and \<open>batch_k\<close> and the number of its samples
  below \<open>2^24\<close> (in particular for \<open>batch_k\<close> larger than the number of samples),
  \<^verbatim>\<open>sample_k_fids_for_pid\<close> raises nothing and returns exactly \<open>batch_k\<close> file ids, each a
  sample of the requested identity, together with \<open>batch_k\<close> copies of the identity's label.
\<close>

lemma sample_k_returns_k_in_range:
  assumes "boolean_mask all_fids (map (\<lambda>q. q = pid) all_pids) = Inr possible_fids"
      and "1 \<le> length possible_fids"
      and "batch_k < 2 ^ 24" and "length possible_fids < 2 ^ 24"
  shows "\<exists>selected_fids.
           sample_k_fids_for_pid rs pid all_fids all_pids batch_k
             = Inr (selected_fids, replicate batch_k pid)
         \<and> length selected_fids = batch_k
         \<and> (\<forall>f \<in> set selected_fids. f \<in> set possible_fids \<and> (f, pid) \<in> set (zip all_fids all_pids))"
proof -
  let ?idx = "selected_indices rs batch_k (length possible_fids)"
  let ?sel = "map ((!) possible_fids) ?idx"
  have res: "sample_k_fids_for_pid rs pid all_fids all_pids batch_k = Inr (?sel, replicate batch_k pid)"
    using assms(1) by (rule sample_k_unfold)
  from assms(2) have "0 < length possible_fids"
    by linarith
  then have len: "length ?sel = batch_k"
    using assms(3,4) by (simp only: length_map length_selected_indices)
  have mem: "f \<in> set possible_fids \<and> (f, pid) \<in> set (zip all_fids all_pids)" if "f \<in> set ?sel" for f
  proof -
    from that obtain j where "j \<in> set ?idx" "f = possible_fids ! j"
      by auto
    then have "f \<in> set possible_fids"
      using selected_indices_lt[of j rs batch_k "length possible_fids"] by simp
    then show ?thesis
      using boolean_mask_member[OF assms(1)] by simp
  qed
  show ?thesis
    using res len mem by blast
qed

text \<open>
  Claim C4 at an input where the code departs from it: one sample and
  \<open>batch_k = 2^24 + 1\<close>.  The \<^verbatim>\<open>float32\<close> value of \<open>16777217\<close> is \<open>16777216\<close>, so the
  padded pool has \<open>16777216\<close> entries and the call returns \<open>16777216\<close> file ids next to
  \<open>16777217\<close> labels.
\<close>

theorem sample_k_one_short_beyond_float32:
  "padded_count 16777217 1 = 16777216
   \<and> (\<exists>selected_fids.
         sample_k_fids_for_pid [] (7::nat) [10::nat] [7] 16777217
           = Inr (selected_fids, replicate 16777217 7)
       \<and> length selected_fids = 16777216)"
proof -
  have bl1: "bit_length 16777217 = 25"
    by (simp add: bit_length.simps)
  have bl2: "bit_length 16777216 = 25"
    by (simp add: bit_length.simps)
  have c1: "f32_of_nat 16777217 = 16777216"
    by (simp add: f32_of_nat_def bl1 round_half_even_div_def)
  have c2: "f32_ceil_quotient 16777216 (Suc 0) = 16777216"
    by (simp add: f32_ceil_quotient_def f32_ceil_quotient_above_one_def bl2
        round_half_even_div_def)
  have pc: "padded_count 16777217 1 = 16777216"
    by (simp add: padded_count_def c1 f32_of_nat_exact c2)
  have m: "boolean_mask [10::nat] (map (\<lambda>q. q = (7::nat)) [7]) = Inr [10]"
    by (simp add: boolean_mask_def)
  have one: "length [10::nat] = 1"
    by simp
  have u: "sample_k_fids_for_pid [] (7::nat) [10::nat] [7] 16777217
      = Inr (map ((!) [10]) (selected_indices [] 16777217 (length [10::nat])),
             replicate 16777217 7)"
    using m by (rule sample_k_unfold)
  have "min (16777217::nat) 16777216 = 16777216"
    by simp
  then have l: "length (map ((!) [10::nat]) (selected_indices [] 16777217 (length [10::nat])))
      = 16777216"
    by (simp only: length_map length_selected_indices_min one pc)
  from u l have "\<exists>selected_fids.
         sample_k_fids_for_pid [] (7::nat) [10::nat] [7] 16777217
           = Inr (selected_fids, replicate 16777217 7)
       \<and> length selected_fids = 16777216"
    by blast
  with pc show ?thesis
    by blast
qed

text \<open>
  Claim C3.  For an identity with at least \<open>batch_k\<close> samples, one call of
  \<^verbatim>\<open>sample_k_fids_for_pid\<close> selects pairwise different sample positions: no sample
  is returned twice (and no file id is, when the identity's file ids are distinct).
\<close>

theorem sample_k_no_duplicate:
  assumes "boolean_mask all_fids (map (\<lambda>q. q = pid) all_pids) = Inr possible_fids"
      and "batch_k \<le> length possible_fids"
  shows "\<exists>selected_fids.
           sample_k_fids_for_pid rs pid all_fids all_pids batch_k
             = Inr (selected_fids, replicate batch_k pid)
         \<and> selected_fids = map ((!) possible_fids) (selected_indices rs batch_k (length possible_fids))
         \<and> distinct (selected_indices rs batch_k (length possible_fids))
         \<and> (distinct possible_fids \<longrightarrow> distinct selected_fids)"
proof -
  let ?idx = "selected_indices rs batch_k (length possible_fids)"
  have res: "sample_k_fids_for_pid rs pid all_fids all_pids batch_k
      = Inr (map ((!) possible_fids) ?idx, replicate batch_k pid)"
    using assms(1) by (rule sample_k_unfold)
  have d: "distinct ?idx"
    using assms(2) by (rule distinct_selected_indices)
  have "distinct (map ((!) possible_fids) ?idx)" if "distinct possible_fids"
  proof -
    have "inj_on ((!) possible_fids) (set ?idx)"
    proof (rule inj_onI)
      fix a b
      assume "a \<in> set ?idx" "b \<in> set ?idx" "possible_fids ! a = possible_fids ! b"
      then show "a = b"
        using that selected_indices_lt[of a rs batch_k "length possible_fids"]
          selected_indices_lt[of b rs batch_k "length possible_fids"]
        by (simp add: nth_eq_iff_index_eq)
    qed
    with d show ?thesis
      by (simp add: distinct_map)
  qed
  with res d show ?thesis
    by blast
qed

theorem sample_k_no_duplicate_witness:
  "boolean_mask [10,11,12,13::nat] (map (\<lambda>q. q = (7::nat)) [7,7,7,8]) = Inr [10,11,12]
   \<and> 2 \<le> length [10,11,12::nat]
   \<and> (\<exists>selected_fids.
           sample_k_fids_for_pid [2,0] (7::nat) [10,11,12,13::nat] [7,7,7,8] 2
             = Inr (selected_fids, replicate 2 7)
         \<and> selected_fids = map ((!) [10,11,12]) (selected_indices [2,0] 2 (length [10,11,12::nat]))
         \<and> distinct (selected_indices [2,0] 2 (length [10,11,12::nat]))
         \<and> (distinct [10,11,12::nat] \<longrightarrow> distinct selected_fids))
   \<and> selected_indices [2,0] 2 3 = [2,0]"
proof -
  have h1: "boolean_mask [10,11,12,13::nat] (map (\<lambda>q. q = (7::nat)) [7,7,7,8]) = Inr [10,11,12]"
    by (simp add: boolean_mask_def)
  have h2: "2 \<le> length [10,11,12::nat]"
    by simp
  have idx: "selected_indices [2,0] 2 3 = [2,0]"
    by code_simp
  show ?thesis
    by (rule conjI[OF h1 conjI[OF h2 conjI[OF sample_k_no_duplicate[OF h1 h2] idx]]])
qed

text \<open>
  Claim C2, as stated, fails.  With three samples and \<open>batch_k = 4\<close> the padded pool is
  \<open>[0,1,2,0,1,2]\<close>; a shuffle that puts both copies of sample \<open>2\<close> last leaves it out
  of the four selected entries, below \<open>floor(4/3) = 1\<close>.
\<close>

theorem sample_k_floor_bound_counterexample:
  "boolean_mask [10,11,12,13::nat] (map (\<lambda>q. q = (7::nat)) [7,7,7,8]) = Inr [10,11,12]
   \<and> length [10,11,12::nat] < 4
   \<and> sample_k_fids_for_pid [0,2,0,1,0,0] (7::nat) [10,11,12,13::nat] [7,7,7,8] 4
        = Inr ([10,10,11,11], [7,7,7,7])
   \<and> count_list [10,10,11,11::nat] 12 < nat \<lfloor>(4::real) / 3\<rfloor>"
proof -
  have m: "boolean_mask [10,11,12,13::nat] (map (\<lambda>q. q = (7::nat)) [7,7,7,8]) = Inr [10,11,12]"
    by (simp add: boolean_mask_def)
  have l: "length [10,11,12::nat] = 3"
    by simp
  have g: "map ((!) [10,11,12::nat]) [0, 0, 1, 1] = [10,10,11,11]"
    by simp
  have r: "replicate 4 (7::nat) = [7,7,7,7]"
    by (simp add: numeral_eq_Suc)
  have s: "sample_k_fids_for_pid [0,2,0,1,0,0] (7::nat) [10,11,12,13::nat] [7,7,7,8] 4
      = Inr ([10,10,11,11], [7,7,7,7])"
    unfolding sample_k_unfold[OF m] l selected_indices_4_3 g r ..
  have c: "count_list [10,10,11,11::nat] 12 < nat \<lfloor>(4::real) / 3\<rfloor>"
    by simp
  have n: "length [10,11,12::nat] < 4"
    by simp
  show ?thesis
    by (rule conjI[OF m conjI[OF n conjI[OF s c]]])
qed

text \<open>
  Claim C2, amended.  For \<open>batch_k\<close> and \<open>count\<close> below \<open>2^24\<close>, in the output of one call
  every sample of the identity occurs at most \<open>ceil(batch_k / count)\<close> times and at least
  \<open>ceil(batch_k / count)\<close> minus the number \<open>padded_count - batch_k\<close> of dropped pool
  entries (cut off at zero); it occurs at least \<open>floor(batch_k / count)\<close> times when
  \<open>batch_k mod count\<close> is \<open>0\<close> or \<open>count - 1\<close>.
\<close>

theorem sample_k_oversampling_bounds:
  assumes "boolean_mask all_fids (map (\<lambda>q. q = pid) all_pids) = Inr possible_fids"
      and "j < length possible_fids"
      and "batch_k < 2 ^ 24" and "length possible_fids < 2 ^ 24"
  shows "sample_k_fids_for_pid rs pid all_fids all_pids batch_k
           = Inr (map ((!) possible_fids) (selected_indices rs batch_k (length possible_fids)),
                  replicate batch_k pid)
         \<and> count_list (selected_indices rs batch_k (length possible_fids)) j
             \<le> nat \<lceil>real batch_k / real (length possible_fids)\<rceil>
         \<and> nat \<lceil>real batch_k / real (length possible_fids)\<rceil>
               - (padded_count batch_k (length possible_fids) - batch_k)
             \<le> count_list (selected_indices rs batch_k (length possible_fids)) j
         \<and> (batch_k mod length possible_fids = 0
              \<or> batch_k mod length possible_fids = length possible_fids - 1
             \<longrightarrow> batch_k div length possible_fids
                   \<le> count_list (selected_indices rs batch_k (length possible_fids)) j)"
  using sample_k_unfold[OF assms(1)] count_selected_upper[OF assms(2,3,4)]
    count_selected_lower[OF assms(2,3,4)] count_selected_floor[OF assms(2) _ assms(3,4)]
  by simp

theorem sample_k_oversampling_bounds_witness:
  "boolean_mask [10,11,12,13::nat] (map (\<lambda>q. q = (7::nat)) [7,7,7,8]) = Inr [10,11,12]
   \<and> 2 < length [10,11,12::nat]
   \<and> (4::nat) < 2 ^ 24
   \<and> length [10,11,12::nat] < 2 ^ 24
   \<and> selected_indices [0,2,0,1,0,0] 4 3 = [0,0,1,1]
   \<and> count_list (selected_indices [0,2,0,1,0,0] 4 (length [10,11,12::nat])) 2
        \<le> nat \<lceil>real 4 / real (length [10,11,12::nat])\<rceil>
   \<and> nat \<lceil>real 4 / real (length [10,11,12::nat])\<rceil>
          - (padded_count 4 (length [10,11,12::nat]) - 4)
        \<le> count_list (selected_indices [0,2,0,1,0,0] 4 (length [10,11,12::nat])) 2"
proof -
  have h1: "boolean_mask [10,11,12,13::nat] (map (\<lambda>q. q = (7::nat)) [7,7,7,8]) = Inr [10,11,12]"
    by (simp add: boolean_mask_def)
  have h2: "2 < length [10,11,12::nat]"
    by simp
  have idx: "selected_indices [0,2,0,1,0,0] 4 3 = [0,0,1,1]"
    by (rule selected_indices_4_3)
  have h3: "(4::nat) < 2 ^ 24"
    by simp
  have h4: "length [10,11,12::nat] < 2 ^ 24"
    by simp
  from sample_k_oversampling_bounds[OF h1 h2 h3 h4, of "[0,2,0,1,0,0]"] h1 h2 h3 h4 idx
  show ?thesis
    by blast
qed

section \<open>Regrouping a flat stream into batches\<close>

declare batch.simps [simp del]

lemma batch_Nil: "batch n [] = []"
  by (simp add: batch.simps)

lemma batch_step: "0 < n \<Longrightarrow> xs \<noteq> [] \<Longrightarrow> batch n xs = take n xs # batch n (drop n xs)"
  by (subst batch.simps) simp

lemma take_drop_concat_blocks:
  assumes "\<forall>b \<in> set bs. length b = k"
  shows "take (p * k) (concat bs) = concat (take p bs)
       \<and> drop (p * k) (concat bs) = concat (drop p bs)"
  using assms
proof (induction bs arbitrary: p)
  case Nil
  show ?case by simp
next
  case (Cons b bs)
  show ?case
  proof (cases p)
    case 0
    then show ?thesis by simp
  next
    case (Suc p')
    from Cons.prems have len: "length b = k" and rest: "\<forall>b \<in> set bs. length b = k"
      by simp_all
    from Cons.IH[OF rest, of p'] len show ?thesis
      unfolding Suc by simp
  qed
qed

lemma batch_concat_blocks:
  assumes "0 < p" "0 < k" "\<forall>b \<in> set bs. length b = k"
  shows "batch (p * k) (concat bs) = map concat (batch p bs)"
  using assms
proof (induction p bs rule: batch.induct)
  case (1 n xs)
  show ?case
  proof (cases "xs = []")
    case True
    then show ?thesis by (simp add: batch_Nil)
  next
    case False
    then obtain b bs' where xs: "xs = b # bs'"
      by (cases xs) auto
    with "1.prems" have "length b = k" by simp
    with \<open>0 < k\<close> have "b \<noteq> []" by auto
    then have ne: "concat xs \<noteq> []"
      unfolding xs by simp
    have rest: "\<forall>b \<in> set (drop n xs). length b = k"
      using "1.prems"(3) by (meson in_set_dropD)
    have ih: "batch (n * k) (concat (drop n xs)) = map concat (batch n (drop n xs))"
      using "1.IH" False "1.prems"(1,2) rest by simp
    have "batch (n * k) (concat xs)
        = take (n * k) (concat xs) # batch (n * k) (drop (n * k) (concat xs))"
      using ne "1.prems"(1,2) by (simp add: batch_step)
    also have "\<dots> = concat (take n xs) # batch (n * k) (concat (drop n xs))"
      using take_drop_concat_blocks[OF "1.prems"(3), of n] by simp
    also have "\<dots> = map concat (take n xs # batch n (drop n xs))"
      using ih by simp
    also have "\<dots> = map concat (batch n xs)"
      using False "1.prems"(1) by (simp add: batch_step)
    finally show ?thesis .
  qed
qed

lemma batch_map: "batch n (map f xs) = map (map f) (batch n xs)"
proof (induction n xs rule: batch.induct)
  case (1 n xs)
  show ?case
  proof (cases "n = 0 \<or> xs = []")
    case True
    then show ?thesis by (auto simp: batch.simps)
  next
    case False
    then have "batch n (map f xs) = take n (map f xs) # batch n (drop n (map f xs))"
      by (simp add: batch_step)
    also have "\<dots> = map f (take n xs) # map (map f) (batch n (drop n xs))"
      using "1.IH"[OF False] by (simp add: take_map drop_map)
    also have "\<dots> = map (map f) (batch n xs)"
      using False by (simp add: batch_step)
    finally show ?thesis .
  qed
qed

lemma batch_append_dvd:
  assumes "0 < n" "n dvd length xs"
  shows "batch n (xs @ ys) = batch n xs @ batch n ys"
  using assms
proof (induction n xs rule: batch.induct)
  case (1 n xs)
  show ?case
  proof (cases "xs = []")
    case True
    then show ?thesis by (simp add: batch_Nil)
  next
    case False
    with "1.prems" have ge: "n \<le> length xs"
      by (simp add: dvd_imp_le)
    from "1.prems"(2) ge have dv: "n dvd length (drop n xs)"
      by (simp add: dvd_diff_nat)
    have "batch n (xs @ ys) = take n (xs @ ys) # batch n (drop n (xs @ ys))"
      using False "1.prems"(1) by (simp add: batch_step)
    also have "\<dots> = take n xs # batch n (drop n xs @ ys)"
      using ge by simp
    also have "\<dots> = take n xs # (batch n (drop n xs) @ batch n ys)"
      using "1.IH" False "1.prems"(1) dv by simp
    also have "\<dots> = batch n xs @ batch n ys"
      using False "1.prems"(1) by (simp add: batch_step)
    finally show ?thesis .
  qed
qed

lemma batch_concat_dvd:
  assumes "0 < n" "\<forall>xs \<in> set xss. n dvd length xs"
  shows "batch n (concat xss) = concat (map (batch n) xss)"
  using assms(2)
proof (induction xss)
  case Nil
  show ?case by (simp add: batch_Nil)
next
  case (Cons xs xss)
  then show ?case
    using assms(1) by (simp add: batch_append_dvd)
qed

lemma batch_chunk:
  assumes "0 < n" "n dvd length xs" "c \<in> set (batch n xs)"
  shows "length c = n \<and> (distinct xs \<longrightarrow> distinct c)"
  using assms
proof (induction n xs rule: batch.induct)
  case (1 n xs)
  show ?case
  proof (cases "xs = []")
    case True
    with "1.prems"(3) show ?thesis by (simp add: batch_Nil)
  next
    case False
    with "1.prems" have ge: "n \<le> length xs"
      by (simp add: dvd_imp_le)
    from "1.prems"(2) ge have dv: "n dvd length (drop n xs)"
      by (simp add: dvd_diff_nat)
    from "1.prems"(3) False "1.prems"(1)
    have "c = take n xs \<or> c \<in> set (batch n (drop n xs))"
      by (simp add: batch_step)
    then show ?thesis
    proof
      assume "c = take n xs"
      then show ?thesis using ge by simp
    next
      assume "c \<in> set (batch n (drop n xs))"
      then have "length c = n \<and> (distinct (drop n xs) \<longrightarrow> distinct c)"
        using "1.IH" False "1.prems"(1) dv by simp
      then show ?thesis by simp
    qed
  qed
qed

lemma length_batch:
  assumes "0 < n" "length xs = q * n"
  shows "length (batch n xs) = q"
  using assms
proof (induction n xs arbitrary: q rule: batch.induct)
  case (1 n xs)
  show ?case
  proof (cases "xs = []")
    case True
    with "1.prems" show ?thesis by (simp add: batch_Nil)
  next
    case False
    with "1.prems" obtain q' where q: "q = Suc q'"
      by (cases q) auto
    with "1.prems"(2) have "length (drop n xs) = q' * n"
      by simp
    then have "length (batch n (drop n xs)) = q'"
      using "1.IH" False "1.prems"(1) by simp
    then show ?thesis
      using False "1.prems"(1) q by (simp add: batch_step)
  qed
qed

section \<open>The batches of the training pipeline\<close>

lemma map_result_ok:
  assumes "\<forall>x \<in> set xs. f x = Inr (g x)"
  shows "map_result f xs = Inr (map g xs)"
  using assms by (induction xs) simp_all

lemma length_concat_replicate: "length (concat (map (replicate k) ps)) = length ps * k"
  by (induction ps) simp_all

lemma set_concat_replicate: "0 < k \<Longrightarrow> set (concat (map (replicate k) ps)) = set ps"
  by (induction ps) auto

lemma count_list_replicate: "count_list (replicate k x) p = (if x = p then k else 0)"
  by (induction k) auto

lemma count_list_concat_map_replicate:
  "count_list (concat (map (replicate k) ps)) p = k * count_list ps p"
  by (induction ps) (simp_all add: count_list_replicate)

lemma count_list_distinct: "distinct ps \<Longrightarrow> p \<in> set ps \<Longrightarrow> count_list ps p = 1"
  by (induction ps) auto

lemma pk_labels:
  assumes "length ps = p" "distinct ps" "0 < k"
  shows "length (concat (map (replicate k) ps)) = p * k
       \<and> card (set (concat (map (replicate k) ps))) = p
       \<and> (\<forall>q \<in> set (concat (map (replicate k) ps)).
             count_list (concat (map (replicate k) ps)) q = k)"
proof -
  have "card (set ps) = p"
    using assms(1,2) by (simp add: distinct_card)
  moreover have "count_list (concat (map (replicate k) ps)) q = k" if "q \<in> set ps" for q
    using that assms(2) by (simp add: count_list_concat_map_replicate count_list_distinct)
  ultimately show ?thesis
    using assms(1,3) by (simp add: length_concat_replicate set_concat_replicate)
qed

lemma np_unique_props: "distinct (np_unique pids) \<and> set (np_unique pids) = set pids"
  by (simp add: np_unique_def)

lemma sample_k_total:
  assumes "length all_fids = length all_pids" and "pid \<in> set all_pids"
      and "batch_k < 2 ^ 24" and "length all_pids < 2 ^ 24"
  shows "\<exists>sel. sample_k_fids_for_pid rs pid all_fids all_pids batch_k
                 = Inr (sel, replicate batch_k pid) \<and> length sel = batch_k"
proof -
  from boolean_mask_nonempty[OF assms(1,2)] obtain possible_fids where
    m: "boolean_mask all_fids (map (\<lambda>q. q = pid) all_pids) = Inr possible_fids"
    and pos: "0 < length possible_fids"
    by blast
  from m have "length possible_fids \<le> length all_fids"
    by (rule boolean_mask_length)
  with assms(1,4) have "length possible_fids < 2 ^ 24"
    by linarith
  with pos assms(3)
  have "length (map ((!) possible_fids) (selected_indices rs batch_k (length possible_fids)))
      = batch_k"
    by (simp only: length_map length_selected_indices)
  with sample_k_unfold[OF m, of rs batch_k] show ?thesis
    by blast
qed


lemma map_result_Inr:
  assumes "map_result h xs = Inr ys"
  shows "ys = map (\<lambda>x. projr (h x)) xs \<and> (\<forall>x \<in> set xs. h x = Inr (projr (h x)))"
  using assms
proof (induction xs arbitrary: ys)
  case Nil
  then show ?case by simp
next
  case (Cons x xs)
  from Cons.prems obtain y where y: "h x = Inr y"
    by (cases "h x") simp_all
  with Cons.prems obtain ys' where ys': "map_result h xs = Inr ys'" "ys = y # ys'"
    by (cases "map_result h xs") simp_all
  from Cons.IH[OF ys'(1)] y ys'(2) show ?case
    by simp
qed

lemma unbatch_element_Inr:
  "unbatch_element fp = Inr z \<Longrightarrow> length (fst fp) = length (snd fp) \<and> z = zip (fst fp) (snd fp)"
  by (auto simp: unbatch_element_def split: if_splits)

lemma train_batches_shape_and_total:
  assumes len: "length fids = length pids" and P: "0 < batch_p" and K: "0 < batch_k"
      and ne: "fids \<noteq> []"
  shows "(\<forall>bs. train_batches epoch_rs sample_rs epochs fids pids batch_p batch_k = Inr bs \<longrightarrow>
             length bs = epochs * (length (np_unique pids) div batch_p)
           \<and> (\<forall>b \<in> set bs. \<exists>ps. length ps = batch_p \<and> distinct ps
                  \<and> map snd b = concat (map (replicate batch_k) ps)))
       \<and> ((\<forall>pid \<in> set pids. \<forall>rs. \<exists>sel.
              sample_k_fids_for_pid rs pid fids pids batch_k = Inr (sel, replicate batch_k pid)
              \<and> length sel = batch_k) \<longrightarrow>
            (\<exists>bs. train_batches epoch_rs sample_rs epochs fids pids batch_p batch_k = Inr bs))"
proof -
  define U where "U = np_unique pids"
  define m where "m = length U div batch_p * batch_p"
  define epoch where "epoch = (\<lambda>e. take m (shuffle (epoch_rs e) U))"
  define S where "S = concat (map epoch [0..<epochs])"
  define f where "f = (\<lambda>(i, pid). sample_k_fids_for_pid (sample_rs i) pid fids pids batch_k)"
  define g where "g = (\<lambda>x. projr (f x))"
  define blocks where "blocks = map (\<lambda>x. zip (fst (g x)) (snd (g x))) (enumerate 0 S)"
  have U: "distinct U" "set U = set pids"
    unfolding U_def by (simp_all add: np_unique_props)
  have m_le: "m \<le> length U"
    unfolding m_def by simp
  have ep_len: "length (epoch e) = m" for e
    unfolding epoch_def using m_le by (simp add: length_shuffle)
  have ep_dist: "distinct (epoch e)" for e
    unfolding epoch_def using U(1) by (simp add: distinct_shuffle)
  have ep_set: "set (epoch e) \<subseteq> set pids" for e
    unfolding epoch_def using U(2) set_shuffle[of "epoch_rs e" U] by (metis set_take_subset)
  have S_set: "set S \<subseteq> set pids"
    unfolding S_def using ep_set by auto
  have S_len: "length S = epochs * (length U div batch_p) * batch_p"
    unfolding S_def by (simp add: length_concat ep_len comp_def sum_list_triv m_def)
  have fg: "f x = Inr (g x) \<and> snd (g x) = replicate batch_k (snd x)" for x
  proof -
    obtain i pid where x: "x = (i, pid)"
      by (cases x)
    from len have "boolean_mask fids (map (\<lambda>q. q = pid) pids)
        = Inr (map fst (filter snd (zip fids (map (\<lambda>q. q = pid) pids))))"
      by (simp add: boolean_mask_ok)
    from sample_k_unfold[OF this, of "sample_rs i" batch_k] show ?thesis
      unfolding g_def f_def x by simp
  qed
  have sampled: "map_result f (enumerate 0 S) = Inr (map g (enumerate 0 S))"
    by (rule map_result_ok) (simp add: fg)
  have unfold: "train_batches epoch_rs sample_rs epochs fids pids batch_p batch_k
      = (case unbatch (map g (enumerate 0 S)) of
           Inl e \<Rightarrow> Inl e
         | Inr flat \<Rightarrow> Inr (batch (batch_p * batch_k) flat))"
    using P K ne sampled
    unfolding train_batches_def Let_def f_def[symmetric] U_def[symmetric] m_def[symmetric]
      epoch_def[symmetric] S_def[symmetric]
    by (simp split: sum.splits)
  have shape: "length bs = epochs * (length (np_unique pids) div batch_p)
           \<and> (\<forall>b \<in> set bs. \<exists>ps. length ps = batch_p \<and> distinct ps
                  \<and> map snd b = concat (map (replicate batch_k) ps))"
    if res: "train_batches epoch_rs sample_rs epochs fids pids batch_p batch_k = Inr bs" for bs
  proof -
    from res unfold obtain flat where flat: "unbatch (map g (enumerate 0 S)) = Inr flat"
        and bs_flat: "bs = batch (batch_p * batch_k) flat"
      by (cases "unbatch (map g (enumerate 0 S))") simp_all
    from flat obtain xss where xss: "map_result unbatch_element (map g (enumerate 0 S)) = Inr xss"
        and flat_xss: "flat = concat xss"
      unfolding unbatch_def
      by (cases "map_result unbatch_element (map g (enumerate 0 S))") simp_all
    from map_result_Inr[OF xss]
    have xss_eq: "xss = map (\<lambda>y. projr (unbatch_element y)) (map g (enumerate 0 S))"
      and ok: "\<forall>y \<in> set (map g (enumerate 0 S)). unbatch_element y = Inr (projr (unbatch_element y))"
      by blast+
    have el: "length (fst (g x)) = batch_k
        \<and> projr (unbatch_element (g x)) = zip (fst (g x)) (snd (g x))"
      if "x \<in> set (enumerate 0 S)" for x
    proof -
      from that ok have "unbatch_element (g x) = Inr (projr (unbatch_element (g x)))"
        by simp
      from unbatch_element_Inr[OF this] fg[of x] show ?thesis
        by simp
    qed
    have "xss = blocks"
      unfolding xss_eq blocks_def by (simp add: el)
    with flat_xss bs_flat have res': "bs = batch (batch_p * batch_k) (concat blocks)"
      by simp
    have blk_len: "\<forall>b \<in> set blocks. length b = batch_k"
      unfolding blocks_def by (auto simp: fg el)
    have blk_lab: "map (map snd) blocks = map (replicate batch_k) S"
    proof -
      have "map (map snd) blocks = map (\<lambda>x. replicate batch_k (snd x)) (enumerate 0 S)"
        unfolding blocks_def by (simp add: fg el)
      also have "\<dots> = map (replicate batch_k) (map snd (enumerate 0 S))"
        by (simp only: map_map comp_def)
      also have "\<dots> = map (replicate batch_k) S"
        by (simp only: map_snd_enumerate)
      finally show ?thesis .
    qed
    have bs: "batch (batch_p * batch_k) (concat blocks) = map concat (batch batch_p blocks)"
      using P K blk_len by (rule batch_concat_blocks)
    have lab: "map (map (map snd)) (batch batch_p blocks)
        = map (map (replicate batch_k)) (batch batch_p S)"
      by (simp only: batch_map[symmetric] blk_lab)
    have n_bs: "length (batch batch_p blocks) = epochs * (length U div batch_p)"
    proof -
      have "length blocks = epochs * (length U div batch_p) * batch_p"
        unfolding blocks_def by (simp add: S_len)
      with P show ?thesis
        by (rule length_batch)
    qed
    have chunks: "batch batch_p S = concat (map (batch batch_p) (map epoch [0..<epochs]))"
      unfolding S_def using P by (rule batch_concat_dvd) (auto simp: ep_len m_def)
    have "\<exists>ps. length ps = batch_p \<and> distinct ps \<and> map snd b = concat (map (replicate batch_k) ps)"
      if "b \<in> set (map concat (batch batch_p blocks))" for b
    proof -
      from that obtain i where i: "i < length (batch batch_p blocks)"
          "b = concat (batch batch_p blocks ! i)"
        by (auto simp: in_set_conv_nth)
      have li: "i < length (batch batch_p S)"
        using i(1) arg_cong[OF lab, of length] by simp
      define c where "c = batch batch_p S ! i"
      have "map (map snd) (batch batch_p blocks ! i) = map (replicate batch_k) c"
        using arg_cong[OF lab, of "\<lambda>l. l ! i"] i(1) li unfolding c_def by simp
      then have 1: "map snd b = concat (map (replicate batch_k) c)"
        unfolding i(2) by (simp add: map_concat)
      have "c \<in> set (batch batch_p S)"
        unfolding c_def using li by simp
      then obtain e where "c \<in> set (batch batch_p (epoch e))"
        unfolding chunks by auto
      moreover have "batch_p dvd length (epoch e)"
        by (simp add: ep_len m_def)
      ultimately have "length c = batch_p \<and> (distinct (epoch e) \<longrightarrow> distinct c)"
        using P by (simp add: batch_chunk)
      with ep_dist 1 show ?thesis
        by blast
    qed
    with res' bs n_bs show ?thesis
      unfolding U_def by simp
  qed
  have total: "\<exists>bs. train_batches epoch_rs sample_rs epochs fids pids batch_p batch_k = Inr bs"
    if H: "\<forall>pid \<in> set pids. \<forall>rs. \<exists>sel.
              sample_k_fids_for_pid rs pid fids pids batch_k = Inr (sel, replicate batch_k pid)
              \<and> length sel = batch_k"
  proof -
    have "unbatch_element (g x) = Inr (zip (fst (g x)) (snd (g x)))"
      if "x \<in> set (enumerate 0 S)" for x
    proof -
      obtain i pid where x: "x = (i, pid)"
        by (cases x)
      with that have "pid \<in> set S"
        by (auto simp: in_set_enumerate_eq)
      with S_set have "pid \<in> set pids"
        by blast
      with H obtain sel where
        "sample_k_fids_for_pid (sample_rs i) pid fids pids batch_k = Inr (sel, replicate batch_k pid)"
        "length sel = batch_k"
        by blast
      with fg[of x] have "g x = (sel, replicate batch_k pid)"
        unfolding f_def x by simp
      with \<open>length sel = batch_k\<close>
      have "length (fst (g x)) = batch_k" "snd (g x) = replicate batch_k pid"
        by simp_all
      then show ?thesis
        by (simp add: unbatch_element_def)
    qed
    then have "map_result unbatch_element (map g (enumerate 0 S))
        = Inr (map (\<lambda>y. zip (fst y) (snd y)) (map g (enumerate 0 S)))"
      by (intro map_result_ok) auto
    then show ?thesis
      unfolding unfold by (simp add: unbatch_def)
  qed
  from shape total show ?thesis
    by blast
qed

lemma train_batches_shape:
  assumes "length fids = length pids" and "0 < batch_p" and "0 < batch_k" and "fids \<noteq> []"
      and "train_batches epoch_rs sample_rs epochs fids pids batch_p batch_k = Inr bs"
  shows "length bs = epochs * (length (np_unique pids) div batch_p)
       \<and> (\<forall>b \<in> set bs. \<exists>ps. length ps = batch_p \<and> distinct ps
              \<and> map snd b = concat (map (replicate batch_k) ps))"
  using train_batches_shape_and_total[OF assms(1-4), of epoch_rs sample_rs epochs] assms(5)
  by blast

lemma train_batches_total:
  assumes "length fids = length pids" and "0 < batch_p" and "0 < batch_k" and "fids \<noteq> []"
      and "batch_k < 2 ^ 24" and "length pids < 2 ^ 24"
  shows "\<exists>bs. train_batches epoch_rs sample_rs epochs fids pids batch_p batch_k = Inr bs"
proof -
  have "\<exists>sel. sample_k_fids_for_pid rs pid fids pids batch_k = Inr (sel, replicate batch_k pid)
           \<and> length sel = batch_k" if "pid \<in> set pids" for pid rs
    using sample_k_total[OF assms(1) that assms(5,6)] by blast
  with train_batches_shape_and_total[OF assms(1-4), of epoch_rs sample_rs epochs]
  show ?thesis
    by blast
qed

lemma concat_map_Nil: "concat (map (\<lambda>e. []) xs) = []"
  by (induction xs) simp_all

text \<open>
  Claim C1.  With \<open>batch_p\<close> and \<open>batch_k\<close> positive and a dataset that is not
  empty: whenever the first \<open>epochs\<close> epochs of the training pipeline yield batches, they
  are \<open>length (np_unique pids) div batch_p\<close> per epoch, and every batch has length
  \<open>batch_p * batch_k\<close>, holds exactly \<open>batch_p\<close> distinct identities, each \<open>batch_k\<close>
  times, and its labels are \<open>batch_p\<close> contiguous blocks of \<open>batch_k\<close> equal labels.
  For \<open>batch_k\<close> and a dataset size below \<open>2^24\<close> the pipeline raises nothing.
\<close>

theorem train_batches_pk:
  assumes "length fids = length pids" and "0 < batch_p" and "0 < batch_k" and "fids \<noteq> []"
  shows "(\<forall>bs. train_batches epoch_rs sample_rs epochs fids pids batch_p batch_k = Inr bs \<longrightarrow>
             length bs = epochs * (length (np_unique pids) div batch_p)
           \<and> (\<forall>b \<in> set bs.
                 length b = batch_p * batch_k
               \<and> card (set (map snd b)) = batch_p
               \<and> (\<forall>q \<in> set (map snd b). count_list (map snd b) q = batch_k)
               \<and> (\<exists>ps. length ps = batch_p \<and> distinct ps
                      \<and> map snd b = concat (map (replicate batch_k) ps))))
       \<and> (batch_k < 2 ^ 24 \<and> length pids < 2 ^ 24 \<longrightarrow>
            (\<exists>bs. train_batches epoch_rs sample_rs epochs fids pids batch_p batch_k = Inr bs))"
proof -
  have "length bs = epochs * (length (np_unique pids) div batch_p)
      \<and> (\<forall>b \<in> set bs.
            length b = batch_p * batch_k
          \<and> card (set (map snd b)) = batch_p
          \<and> (\<forall>q \<in> set (map snd b). count_list (map snd b) q = batch_k)
          \<and> (\<exists>ps. length ps = batch_p \<and> distinct ps
                 \<and> map snd b = concat (map (replicate batch_k) ps)))"
    if res: "train_batches epoch_rs sample_rs epochs fids pids batch_p batch_k = Inr bs" for bs
  proof -
    from train_batches_shape[OF assms res]
    have n: "length bs = epochs * (length (np_unique pids) div batch_p)"
      and blocks: "\<forall>b \<in> set bs. \<exists>ps. length ps = batch_p \<and> distinct ps
                     \<and> map snd b = concat (map (replicate batch_k) ps)"
      by blast+
    have "length b = batch_p * batch_k
        \<and> card (set (map snd b)) = batch_p
        \<and> (\<forall>q \<in> set (map snd b). count_list (map snd b) q = batch_k)
        \<and> (\<exists>ps. length ps = batch_p \<and> distinct ps
               \<and> map snd b = concat (map (replicate batch_k) ps))" if "b \<in> set bs" for b
    proof -
      from blocks that obtain ps where ps: "length ps = batch_p" "distinct ps"
          "map snd b = concat (map (replicate batch_k) ps)"
        by blast
      have lab: "length (map snd b) = batch_p * batch_k
          \<and> card (set (map snd b)) = batch_p
          \<and> (\<forall>q \<in> set (map snd b). count_list (map snd b) q = batch_k)"
        unfolding ps(3) using ps(1,2) assms(3) by (rule pk_labels)
      then have "length b = batch_p * batch_k"
        by simp
      with lab have "length b = batch_p * batch_k
          \<and> card (set (map snd b)) = batch_p
          \<and> (\<forall>q \<in> set (map snd b). count_list (map snd b) q = batch_k)"
        by blast
      with ps show ?thesis
        by blast
    qed
    with n show ?thesis
      by blast
  qed
  moreover have "\<exists>bs. train_batches epoch_rs sample_rs epochs fids pids batch_p batch_k = Inr bs"
    if "batch_k < 2 ^ 24 \<and> length pids < 2 ^ 24"
    using train_batches_total[OF assms, of epoch_rs sample_rs epochs] that by blast
  ultimately show ?thesis
    by blast
qed

theorem train_batches_pk_witness:
  "length [10,11,12,13::nat] = length [1,1,2,2::nat]
   \<and> (0::nat) < 2
   \<and> (0::nat) < 2
   \<and> [10,11,12,13::nat] \<noteq> []
   \<and> (2::nat) < 2 ^ 24
   \<and> length [1,1,2,2::nat] < 2 ^ 24
   \<and> (\<exists>bs. train_batches (\<lambda>e. [e]) (\<lambda>i. [i]) 2 [10,11,12,13::nat] [1,1,2,2::nat] 2 2 = Inr bs
           \<and> length bs = 2 * (length (np_unique [1,1,2,2::nat]) div 2)
           \<and> (\<forall>b \<in> set bs.
                 length b = 2 * 2
               \<and> card (set (map snd b)) = 2
               \<and> (\<forall>q \<in> set (map snd b). count_list (map snd b) q = 2)
               \<and> (\<exists>ps. length ps = 2 \<and> distinct ps
                      \<and> map snd b = concat (map (replicate 2) ps))))
   \<and> train_batches (\<lambda>e. [e]) (\<lambda>i. [i]) 1 [10,11,12,13::nat] [1,1,2,2::nat] 2 2
        = Inr [[(10, 1), (11, 1), (13, 2), (12, 2)]]"
proof -
  have h1: "length [10,11,12,13::nat] = length [1,1,2,2::nat]"
    by simp
  have h2: "(0::nat) < 2"
    by simp
  have h3: "[10,11,12,13::nat] \<noteq> []"
    by simp
  have h4: "(2::nat) < 2 ^ 24"
    by simp
  have h5: "length [1,1,2,2::nat] < 2 ^ 24"
    by simp
  have ex: "train_batches (\<lambda>e. [e]) (\<lambda>i. [i]) 1 [10,11,12,13::nat] [1,1,2,2::nat] 2 2
      = Inr [[(10, 1), (11, 1), (13, 2), (12, 2)]]"
    by code_simp
  from train_batches_pk[OF h1 h2 h2 h3, of "\<lambda>e. [e]" "\<lambda>i. [i]" 2] h4 h5
  have "\<exists>bs. train_batches (\<lambda>e. [e]) (\<lambda>i. [i]) 2 [10,11,12,13::nat] [1,1,2,2::nat] 2 2 = Inr bs
           \<and> length bs = 2 * (length (np_unique [1,1,2,2::nat]) div 2)
           \<and> (\<forall>b \<in> set bs.
                 length b = 2 * 2
               \<and> card (set (map snd b)) = 2
               \<and> (\<forall>q \<in> set (map snd b). count_list (map snd b) q = 2)
               \<and> (\<exists>ps. length ps = 2 \<and> distinct ps
                      \<and> map snd b = concat (map (replicate 2) ps)))"
    by blast
  with h1 h2 h3 h4 h5 ex show ?thesis
    by (intro conjI)
qed

text \<open>
  Claim C5, as stated, fails.  With two unique identities and \<open>batch_p = 3\<close> the pipeline
  is set up without any error: every epoch is truncated to zero identities and the
  pipeline yields no batch.
\<close>

theorem insufficient_identities_counterexample:
  "length (np_unique [1,1,2::nat]) < 3
   \<and> train_batches (\<lambda>e. []) (\<lambda>i. []) 5 [10,11,12::nat] [1,1,2::nat] 3 2 = Inr []"
  by code_simp

text \<open>
  Claim C5, amended.  If the dataset is not empty and has fewer than \<open>batch_p\<close>
  unique identities, setting up the sampler raises no error; each epoch is truncated to zero identities, so the
  pipeline yields no batch however many epochs are pulled.
\<close>

theorem insufficient_identities_no_batches:
  assumes "length (np_unique pids) < batch_p" and "0 < batch_k" and "fids \<noteq> []"
  shows "train_batches epoch_rs sample_rs epochs fids pids batch_p batch_k = Inr []"
proof -
  from assms(1) have P: "0 < batch_p" and z: "length (np_unique pids) div batch_p = 0"
    by simp_all
  show ?thesis
    using P assms(2,3)
    by (simp add: train_batches_def Let_def z concat_map_Nil unbatch_def batch_Nil)
qed

theorem insufficient_identities_no_batches_witness:
  "length (np_unique [1,1,2::nat]) < 3
   \<and> (0::nat) < 2
   \<and> [10,11,12::nat] \<noteq> []
   \<and> train_batches (\<lambda>e. [e]) (\<lambda>i. [i]) 5 [10,11,12::nat] [1,1,2::nat] 3 2 = Inr []"
proof -
  have h1: "length (np_unique [1,1,2::nat]) < 3"
    by code_simp
  have h2: "(0::nat) < 2"
    by simp
  have h3: "[10,11,12::nat] \<noteq> []"
    by simp
  show ?thesis
    by (rule conjI[OF h1 conjI[OF h2 conjI[OF h3 insufficient_identities_no_batches[OF h1 h2 h3]]]])
qed

section \<open>Resuming, storing and checking the arguments\<close>

lemma merge_resumed_keys: "map fst (fst (merge_resumed r args)) = map fst args"
  by (induction args) (auto split: prod.splits option.splits)

lemma merge_resumed_conflict:
  assumes "distinct (map fst args)" and "(key, v) \<in> set args"
      and "r key = Some resumed_value" and "\<not> py_eq resumed_value v"
  shows "map_of (fst (merge_resumed r args)) key = Some resumed_value
       \<and> WarnLoadedValue key resumed_value v \<in> set (snd (merge_resumed r args))"
  using assms
proof (induction args)
  case Nil
  then show ?case by simp
next
  case (Cons kv args)
  obtain k x where kv: "kv = (k, x)"
    by (cases kv)
  obtain args' msgs where rec: "merge_resumed r args = (args', msgs)"
    by (cases "merge_resumed r args")
  show ?case
  proof (cases "k = key")
    case True
    with Cons.prems(1,2) kv have "x = v"
      by (auto simp: image_iff)
    with True Cons.prems(3,4) show ?thesis
      unfolding kv by (simp add: rec)
  next
    case False
    with Cons.prems kv have "distinct (map fst args)" "(key, v) \<in> set args"
      by auto
    from Cons.IH[OF this Cons.prems(3,4)] False show ?thesis
      unfolding kv by (auto simp: rec split: option.splits)
  qed
qed

text \<open>
  Claim C6, as stated, fails for the key \<^verbatim>\<open>resume\<close>.  The persisted file of a run
  started without \<^verbatim>\<open>--resume\<close> holds \<^verbatim>\<open>"resume": false\<close>, which disagrees with the
  supplied \<^verbatim>\<open>True\<close>; line 189 overwrites the loaded value before the comparison, so the
  effective value stays \<^verbatim>\<open>True\<close> and no warning is printed for this key.
\<close>

theorem resume_flag_counterexample:
  "map_of [(''batch_p'', PyInt 16), (''resume'', PyBool False)] ''resume'' = Some (PyBool False)
   \<and> (''resume'', PyBool True) \<in> set [(''resume'', PyBool True), (''batch_p'', PyInt 32)]
   \<and> \<not> py_eq (PyBool False) (PyBool True)
   \<and> fst (load_args [(''resume'', PyBool True), (''batch_p'', PyInt 32)]
            \<lparr>root = Some [''args.json'' \<mapsto>
                      JsonObject [(''batch_p'', PyInt 16), (''resume'', PyBool False)]],
             out = []\<rparr>)
       = Continue [(''resume'', PyBool True), (''batch_p'', PyInt 16)]
   \<and> out (snd (load_args [(''resume'', PyBool True), (''batch_p'', PyInt 32)]
            \<lparr>root = Some [''args.json'' \<mapsto>
                      JsonObject [(''batch_p'', PyInt 16), (''resume'', PyBool False)]],
             out = []\<rparr>))
       = [LoadingArgs, WarnLoadedValue ''batch_p'' (PyInt 16) (PyInt 32)]"
  by (simp add: load_args_def py_eq_def)

text \<open>
  Claim C6, amended.  When resuming from an existing \<^verbatim>\<open>args.json\<close>, for every key other
  than \<^verbatim>\<open>resume\<close> whose persisted value differs (by Python's \<^verbatim>\<open>!=\<close>) from the supplied
  one, the persisted value becomes the effective value, a warning naming both values is
  printed, nothing is raised, and the experiment directory is left as it was.
\<close>

theorem resume_loaded_value_wins:
  assumes "root w = Some d" and "d ''args.json'' = Some (JsonObject loaded)"
      and "distinct (map fst args)"
      and "(key, v) \<in> set args" and "key \<noteq> ''resume''"
      and "map_of loaded key = Some resumed_value" and "\<not> py_eq resumed_value v"
  shows "\<exists>args' w'. load_args args w = (Continue args', w')
           \<and> map_of args' key = Some resumed_value
           \<and> WarnLoadedValue key resumed_value v \<in> set (out w')
           \<and> root w' = root w"
proof -
  define r where "r = (map_of loaded)(''resume'' \<mapsto> PyBool True)"
  obtain args' msgs where m: "merge_resumed r args = (args', msgs)"
    by (cases "merge_resumed r args")
  have rk: "r key = Some resumed_value"
    unfolding r_def using assms(5,6) by simp
  from merge_resumed_conflict[of args key v r resumed_value, OF assms(3,4) rk assms(7)] m
  have "map_of args' key = Some resumed_value" "WarnLoadedValue key resumed_value v \<in> set msgs"
    by simp_all
  moreover have "load_args args w = (Continue args', w\<lparr>out := out w @ LoadingArgs # msgs\<rparr>)"
    using assms(1,2) m unfolding load_args_def r_def by simp
  ultimately show ?thesis
    by simp
qed

theorem resume_loaded_value_wins_witness:
  "root \<lparr>root = Some [''args.json'' \<mapsto> JsonObject [(''batch_p'', PyInt 16), (''resume'', PyBool False)]],
         out = []\<rparr>
     = Some [''args.json'' \<mapsto> JsonObject [(''batch_p'', PyInt 16), (''resume'', PyBool False)]]
   \<and> [''args.json'' \<mapsto> JsonObject [(''batch_p'', PyInt 16), (''resume'', PyBool False)]] ''args.json''
       = Some (JsonObject [(''batch_p'', PyInt 16), (''resume'', PyBool False)])
   \<and> distinct (map fst [(''resume'', PyBool True), (''batch_p'', PyInt 32)])
   \<and> (''batch_p'', PyInt 32) \<in> set [(''resume'', PyBool True), (''batch_p'', PyInt 32)]
   \<and> ''batch_p'' \<noteq> ''resume''
   \<and> map_of [(''batch_p'', PyInt 16), (''resume'', PyBool False)] ''batch_p'' = Some (PyInt 16)
   \<and> \<not> py_eq (PyInt 16) (PyInt 32)
   \<and> (\<exists>args' w'.
          load_args [(''resume'', PyBool True), (''batch_p'', PyInt 32)]
            \<lparr>root = Some [''args.json'' \<mapsto>
                      JsonObject [(''batch_p'', PyInt 16), (''resume'', PyBool False)]],
             out = []\<rparr> = (Continue args', w')
        \<and> map_of args' ''batch_p'' = Some (PyInt 16)
        \<and> WarnLoadedValue ''batch_p'' (PyInt 16) (PyInt 32) \<in> set (out w')
        \<and> root w' = root \<lparr>root = Some [''args.json'' \<mapsto>
                      JsonObject [(''batch_p'', PyInt 16), (''resume'', PyBool False)]],
             out = []\<rparr>)"
proof -
  let ?loaded = "[(''batch_p'', PyInt 16), (''resume'', PyBool False)]"
  let ?d = "[''args.json'' \<mapsto> JsonObject ?loaded]"
  let ?w = "\<lparr>root = Some ?d, out = []\<rparr>"
  let ?args = "[(''resume'', PyBool True), (''batch_p'', PyInt 32)]"
  have h1: "root ?w = Some ?d"
    by simp
  have h2: "?d ''args.json'' = Some (JsonObject ?loaded)"
    by simp
  have h3: "distinct (map fst ?args)"
    by simp
  have h4: "(''batch_p'', PyInt 32) \<in> set ?args"
    by simp
  have h5: "''batch_p'' \<noteq> ''resume''"
    by simp
  have h6: "map_of ?loaded ''batch_p'' = Some (PyInt 16)"
    by simp
  have h7: "\<not> py_eq (PyInt 16) (PyInt 32)"
    by (simp add: py_eq_def)
  from h1 h2 h3 h4 h5 h6 h7 resume_loaded_value_wins[OF h1 h2 h3 h4 h5 h6 h7]
  show ?thesis
    by (intro conjI)
qed

text \<open>
  Claim C9.  Without \<^verbatim>\<open>--resume\<close>, if the experiment root exists and has an entry, the
  program prints the diagnostic and exits with status \<open>1\<close>; the directory is left exactly
  as it was, so no \<^verbatim>\<open>args.json\<close> is written.
\<close>

theorem nonempty_root_exits:
  assumes "map_of args ''resume'' = Some resume" and "\<not> py_truthy resume"
      and "root w = Some d" and "d \<noteq> Map.empty"
  shows "main_args args w = (Exit 1, w\<lparr>out := out w @ [DirNotEmpty]\<rparr>)
       \<and> root (snd (main_args args w)) = root w"
  using assms by (simp add: main_args_def store_args_def)

theorem nonempty_root_exits_witness:
  "map_of [(''resume'', PyBool False), (''train_set'', PyStr ''train.csv'')] ''resume''
     = Some (PyBool False)
   \<and> \<not> py_truthy (PyBool False)
   \<and> root \<lparr>root = Some [''checkpoint-0.index'' \<mapsto> OtherFile], out = []\<rparr>
       = Some [''checkpoint-0.index'' \<mapsto> OtherFile]
   \<and> [''checkpoint-0.index'' \<mapsto> OtherFile] \<noteq> Map.empty
   \<and> main_args [(''resume'', PyBool False), (''train_set'', PyStr ''train.csv'')]
         \<lparr>root = Some [''checkpoint-0.index'' \<mapsto> OtherFile], out = []\<rparr>
       = (Exit 1, \<lparr>root = Some [''checkpoint-0.index'' \<mapsto> OtherFile], out = [DirNotEmpty]\<rparr>)"
proof -
  let ?args = "[(''resume'', PyBool False), (''train_set'', PyStr ''train.csv'')]"
  let ?d = "[''checkpoint-0.index'' \<mapsto> OtherFile]"
  let ?w = "\<lparr>root = Some ?d, out = []\<rparr>"
  have h1: "map_of ?args ''resume'' = Some (PyBool False)"
    by simp
  have h2: "\<not> py_truthy (PyBool False)"
    by simp
  have h3: "root ?w = Some ?d"
    by simp
  have h4: "?d \<noteq> Map.empty"
    by simp
  from nonempty_root_exits[OF h1 h2 h3 h4]
  have "main_args ?args ?w = (Exit 1, \<lparr>root = Some ?d, out = [DirNotEmpty]\<rparr>)"
    by simp
  with h1 h2 h3 h4 show ?thesis
    by (intro conjI)
qed

text \<open>
  Claim C7, as stated, fails.  A run without \<^verbatim>\<open>--resume\<close> in an empty experiment root
  and with no \<^verbatim>\<open>train_set\<close> exits with status \<open>1\<close>, but only after \<^verbatim>\<open>args.json\<close> has
  been written: the check of the required arguments comes after the arguments are stored.
\<close>

theorem missing_train_set_counterexample:
  "root \<lparr>root = Some Map.empty, out = []\<rparr> = Some Map.empty
   \<and> fst (main_args [(''resume'', PyBool False), (''train_set'', PyNone),
                     (''image_root'', PyStr ''/data'')]
            \<lparr>root = Some Map.empty, out = []\<rparr>) = Exit 1
   \<and> root (snd (main_args [(''resume'', PyBool False), (''train_set'', PyNone),
                           (''image_root'', PyStr ''/data'')]
            \<lparr>root = Some Map.empty, out = []\<rparr>))
       = Some [''args.json'' \<mapsto> JsonObject [(''resume'', PyBool False), (''train_set'', PyNone),
                                               (''image_root'', PyStr ''/data'')]]
   \<and> Some [''args.json'' \<mapsto> JsonObject [(''resume'', PyBool False), (''train_set'', PyNone),
                                           (''image_root'', PyStr ''/data'')]]
       \<noteq> Some Map.empty"
  by (simp add: main_args_def store_args_def check_required_def)

text \<open>
  Claim C7, amended.  A run without \<^verbatim>\<open>--resume\<close>, in a missing or empty experiment
  root, whose \<^verbatim>\<open>train_set\<close> or \<^verbatim>\<open>image_root\<close> argument is missing prints the help text
  and an error and exits with status \<open>1\<close>; by then the experiment root exists and holds
  \<^verbatim>\<open>args.json\<close> with the passed arguments.
\<close>

theorem missing_required_exits_after_write:
  assumes "map_of args ''resume'' = Some resume" and "\<not> py_truthy resume"
      and "root w = None \<or> root w = Some Map.empty"
      and "map_of args ''train_set'' = Some train_set"
      and "map_of args ''image_root'' = Some image_root"
      and "\<not> (py_truthy train_set \<and> py_truthy image_root)"
  shows "\<exists>w'. main_args args w = (Exit 1, w')
           \<and> root w' = Some (Map.empty(''args.json'' \<mapsto> JsonObject args))
           \<and> PrintHelp \<in> set (out w')
           \<and> (ErrorNoTrainSet \<in> set (out w') \<or> ErrorNoImageRoot \<in> set (out w'))"
  using assms by (auto simp: main_args_def store_args_def check_required_def)

theorem missing_required_exits_after_write_witness:
  "map_of [(''resume'', PyBool False), (''train_set'', PyStr ''train.csv''),
           (''image_root'', PyNone)] ''resume'' = Some (PyBool False)
   \<and> \<not> py_truthy (PyBool False)
   \<and> (root \<lparr>root = None, out = []\<rparr> = None \<or> root \<lparr>root = None, out = []\<rparr> = Some Map.empty)
   \<and> map_of [(''resume'', PyBool False), (''train_set'', PyStr ''train.csv''),
             (''image_root'', PyNone)] ''train_set'' = Some (PyStr ''train.csv'')
   \<and> map_of [(''resume'', PyBool False), (''train_set'', PyStr ''train.csv''),
             (''image_root'', PyNone)] ''image_root'' = Some PyNone
   \<and> \<not> (py_truthy (PyStr ''train.csv'') \<and> py_truthy PyNone)
   \<and> (\<exists>w'. main_args [(''resume'', PyBool False), (''train_set'', PyStr ''train.csv''),
                       (''image_root'', PyNone)] \<lparr>root = None, out = []\<rparr> = (Exit 1, w')
          \<and> root w' = Some [''args.json'' \<mapsto>
                JsonObject [(''resume'', PyBool False), (''train_set'', PyStr ''train.csv''),
                            (''image_root'', PyNone)]]
          \<and> PrintHelp \<in> set (out w')
          \<and> (ErrorNoTrainSet \<in> set (out w') \<or> ErrorNoImageRoot \<in> set (out w')))"
proof -
  let ?args = "[(''resume'', PyBool False), (''train_set'', PyStr ''train.csv''),
                (''image_root'', PyNone)]"
  let ?w = "\<lparr>root = None, out = []\<rparr>"
  have h1: "map_of ?args ''resume'' = Some (PyBool False)"
    by simp
  have h2: "\<not> py_truthy (PyBool False)"
    by simp
  have h3: "root ?w = None \<or> root ?w = Some Map.empty"
    by simp
  have h4: "map_of ?args ''train_set'' = Some (PyStr ''train.csv'')"
    by simp
  have h5: "map_of ?args ''image_root'' = Some PyNone"
    by simp
  have h6: "\<not> (py_truthy (PyStr ''train.csv'') \<and> py_truthy PyNone)"
    by simp
  from h1 h2 h3 h4 h5 h6 missing_required_exits_after_write[OF h1 h2 h3 h4 h5 h6]
  show ?thesis
    by (intro conjI)
qed

section \<open>Leaving the training loop\<close>

lemma train_loop_done:
  "train_iterations \<le> i \<Longrightarrow>
     train_loop run_step interrupted checkpoint_frequency train_iterations i s = (None, s)"
  by (subst train_loop.simps) simp

lemma interrupted_step_completes:
  assumes "i < train_iterations" and "run_step i = Inr fetched" and "interrupted i"
  shows "train_loop run_step interrupted checkpoint_frequency train_iterations i s
           = (None, s\<lparr>step := Some fetched,
                       checkpoints := checkpoints s @
                         (if checkpoint_frequency > 0 \<and> fetched mod checkpoint_frequency = 0
                          then [fetched] else []),
                       log := log s @ [LogIter fetched, LogInterrupted]\<rparr>)"
  using assms by (subst train_loop.simps) (simp add: Let_def)

lemma train_loop_binds_step:
  assumes "\<forall>j. \<exists>fetched. run_step j = Inr fetched"
      and "i < train_iterations \<or> step s \<noteq> None"
  shows "\<exists>s' last_step. train_loop run_step interrupted checkpoint_frequency train_iterations i s
           = (None, s') \<and> step s' = Some last_step"
  using assms
proof (induction run_step interrupted checkpoint_frequency train_iterations i s
    rule: train_loop.induct)
  case (1 run_step interrupted checkpoint_frequency train_iterations i s)
  show ?case
  proof (cases "i < train_iterations")
    case False
    with "1.prems"(2) show ?thesis
      by (auto simp: train_loop_done)
  next
    case True
    from "1.prems"(1) obtain fetched where f: "run_step i = Inr fetched"
      by blast
    define s1 where "s1 = s\<lparr>step := Some fetched, log := log s @ [LogIter fetched]\<rparr>"
    define s2 where "s2 = (if checkpoint_frequency > 0 \<and> fetched mod checkpoint_frequency = 0
                        then s1\<lparr>checkpoints := checkpoints s1 @ [fetched]\<rparr> else s1)"
    have st: "step s2 = Some fetched"
      unfolding s2_def s1_def by simp
    show ?thesis
    proof (cases "interrupted i")
      case True
      with \<open>i < train_iterations\<close> f
      have "train_loop run_step interrupted checkpoint_frequency train_iterations i s
          = (None, s2\<lparr>log := log s2 @ [LogInterrupted]\<rparr>)"
        by (subst train_loop.simps) (simp add: Let_def s1_def s2_def)
      with st show ?thesis
        by simp
    next
      case False
      with \<open>i < train_iterations\<close> f
      have eq: "train_loop run_step interrupted checkpoint_frequency train_iterations i s
          = train_loop run_step interrupted checkpoint_frequency train_iterations (i + 1) s2"
        by (subst train_loop.simps) (simp add: Let_def s1_def s2_def)
      have "\<exists>s' last_step.
          train_loop run_step interrupted checkpoint_frequency train_iterations (i + 1) s2
            = (None, s') \<and> step s' = Some last_step"
        using "1.IH"[OF \<open>i < train_iterations\<close> f s1_def s2_def False "1.prems"(1)] st
        by simp
      with eq show ?thesis
        by simp
    qed
  qed
qed

lemma train_saves_final_checkpoint:
  assumes "\<forall>j. \<exists>fetched. run_step j = Inr fetched" and "start_step < train_iterations"
  shows "\<exists>s' last_step.
           train_loop run_step interrupted checkpoint_frequency train_iterations start_step
             \<lparr>step = None, checkpoints = saved, log = [LogStart start_step]\<rparr> = (None, s')
         \<and> step s' = Some last_step
         \<and> train run_step interrupted checkpoint_frequency train_iterations start_step saved
             = (None, s'\<lparr>checkpoints := checkpoints s' @ [last_step]\<rparr>)"
proof -
  from train_loop_binds_step[OF assms(1), of start_step train_iterations _ interrupted
      checkpoint_frequency] assms(2)
  obtain s' last_step where
    "train_loop run_step interrupted checkpoint_frequency train_iterations start_step
       \<lparr>step = None, checkpoints = saved, log = [LogStart start_step]\<rparr> = (None, s')"
    "step s' = Some last_step"
    by blast
  then show ?thesis
    by (simp add: train_def final_checkpoint_def)
qed

text \<open>A run of ten iterations, interrupted during the fourth, with a checkpoint every second step.\<close>

lemma train_interrupted_example:
  "train (\<lambda>i. Inr (i + 1)) (\<lambda>i. i = 3) 2 10 0 [0]
     = (None, \<lparr>step = Some 4, checkpoints = [0, 2, 4, 4],
               log = [LogStart 0, LogIter 1, LogIter 2, LogIter 3, LogIter 4, LogInterrupted]\<rparr>)"
  by (simp add: train_def train_loop.simps final_checkpoint_def Let_def)

text \<open>
  Claim C10.  If the restored global step is already at or beyond \<^verbatim>\<open>train_iterations\<close>,
  the loop body never runs, \<^verbatim>\<open>step\<close> is never bound, and the final save raises
  \<^verbatim>\<open>NameError\<close>: the checkpoints are the ones that existed before.
\<close>

theorem zero_iterations_name_error:
  assumes "train_iterations \<le> start_step"
  shows "train run_step interrupted checkpoint_frequency train_iterations start_step saved
           = (Some NameError, \<lparr>step = None, checkpoints = saved, log = [LogStart start_step]\<rparr>)"
  using assms by (simp add: train_def train_loop_done final_checkpoint_def)

theorem zero_iterations_name_error_witness:
  "(5::int) \<le> 5
   \<and> train (\<lambda>i. Inr (i + 1)) (\<lambda>i. False) 2 5 5 [0, 2, 4, 5]
       = (Some NameError, \<lparr>step = None, checkpoints = [0, 2, 4, 5], log = [LogStart 5]\<rparr>)"
proof -
  have h: "(5::int) \<le> 5"
    by simp
  show ?thesis
    by (rule conjI[OF h zero_iterations_name_error[OF h]])
qed

text \<open>
  Claim C8 at the input where the code departs from it: resuming a run that had finished
  (restored global step \<open>25000\<close>, \<^verbatim>\<open>train_iterations\<close> \<open>25000\<close>).  The loop is left by
  reaching the iteration count, yet no final checkpoint is saved.  For every run with
  at least one iteration whose steps raise nothing, \<open>train_saves_final_checkpoint\<close> and
  \<open>interrupted_step_completes\<close> give what the claim says.
\<close>

theorem resumed_finished_run_saves_no_final_checkpoint:
  "train (\<lambda>i. Inr (i + 1)) (\<lambda>i. False) 1000 25000 25000 [25000]
     = (Some NameError, \<lparr>step = None, checkpoints = [25000], log = [LogStart 25000]\<rparr>)"
  by (simp add: train_def train_loop.simps final_checkpoint_def)

end
